theory Spec2Isabelle
  imports Main
begin

section \<open>Task callbacks, the workflow-run handler and the engine client\<close>

text \<open>
  The development embeds the API routes of the frontend that record and report workflow
  Tasks: the three versions of the callback route (the upsert version of part_008, the
  update version of \<^verbatim>\<open>pages/api/v1/callback/task/index.js\<close> and the version with
  \<^verbatim>\<open>fireCallback\<close>), the workflow-run route of part_007, the Task read route and
  \<^verbatim>\<open>runAgent\<close> of \<^verbatim>\<open>utils/server/run-workflow.js\<close>.

  Every effect of a handler is explicit. A handler takes the request and a world (the
  tables, the pending database faults, the pending HTTP replies and the trace of effects so
  far) and returns what it answered or threw together with the new world. The values that a
  request body, a database column or an HTTP reply can carry are JSON values, and
  \<^verbatim>\<open>JSON.stringify\<close> and \<^verbatim>\<open>JSON.parse\<close> are functions on them.
\<close>

subsection \<open>JSON values and \<^verbatim>\<open>JSON.stringify\<close>\<close>

text \<open>
  A value obtained from \<^verbatim>\<open>JSON.parse\<close> is null, a boolean, a number, a string, an
  array or a plain object with its own properties in order. Strings are lists of 8-bit
  characters and numbers are integers printed in plain decimal notation: code units above
  255 and the fractional, exponent, negative-zero and overflow behaviour of IEEE doubles
  are outside this model.
\<close>

datatype json = JNull | JBool bool | JNum int | JStr string
  | JArr "json list" | JObj "(string \<times> json) list"

abbreviation dquote :: char where "dquote \<equiv> CHR 0x22"
abbreviation backslash :: char where "backslash \<equiv> CHR 0x5C"

definition is_digit :: "char \<Rightarrow> bool" where
  "is_digit c = (48 \<le> (of_char c :: nat) \<and> (of_char c :: nat) \<le> 57)"

definition digit_char :: "nat \<Rightarrow> char" where
  "digit_char n = char_of (48 + n)"

definition digit_val :: "char \<Rightarrow> nat" where
  "digit_val c = of_char c - 48"

fun show_nat :: "nat \<Rightarrow> string" where
  "show_nat n = (if n < 10 then [digit_char n] else show_nat (n div 10) @ [digit_char (n mod 10)])"

declare show_nat.simps [simp del]

definition read_nat :: "string \<Rightarrow> nat" where
  "read_nat ds = foldl (\<lambda>a c. 10 * a + digit_val c) 0 ds"

definition show_int :: "int \<Rightarrow> string" where
  "show_int i = (if i < 0 then CHR ''-'' # show_nat (nat (- i)) else show_nat (nat i))"

definition hex_char :: "nat \<Rightarrow> char" where
  "hex_char n = (if n < 10 then char_of (48 + n) else char_of (87 + n))"

definition hex_val :: "char \<Rightarrow> nat option" where
  "hex_val c = (let n = (of_char c :: nat) in
     if 48 \<le> n \<and> n \<le> 57 then Some (n - 48)
     else if 97 \<le> n \<and> n \<le> 102 then Some (n - 87)
     else if 65 \<le> n \<and> n \<le> 70 then Some (n - 55)
     else None)"

text \<open>
  The string quoting of \<^verbatim>\<open>JSON.stringify\<close>: the two-character escapes, a
  four-digit hexadecimal escape for every other control character, and every other character as it
  is.
\<close>

definition quote_char :: "char \<Rightarrow> string" where
  "quote_char c =
    (if c = CHR 0x08 then [backslash, CHR ''b'']
     else if c = CHR 0x09 then [backslash, CHR ''t'']
     else if c = CHR 0x0A then [backslash, CHR ''n'']
     else if c = CHR 0x0C then [backslash, CHR ''f'']
     else if c = CHR 0x0D then [backslash, CHR ''r'']
     else if c = dquote then [backslash, dquote]
     else if c = backslash then [backslash, backslash]
     else if (of_char c :: nat) < 32
       then [backslash, CHR ''u'', CHR ''0'', CHR ''0'',
             hex_char (of_char c div 16), hex_char (of_char c mod 16)]
     else [c])"

definition quote :: "string \<Rightarrow> string" where
  "quote s = dquote # concat (map quote_char s) @ [dquote]"

fun stringify :: "json \<Rightarrow> string"
  and stringify_elems :: "json list \<Rightarrow> string"
  and stringify_members :: "(string \<times> json) list \<Rightarrow> string" where
  "stringify JNull = ''null''"
| "stringify (JBool b) = (if b then ''true'' else ''false'')"
| "stringify (JNum i) = show_int i"
| "stringify (JStr s) = quote s"
| "stringify (JArr vs) = CHR ''['' # stringify_elems vs @ '']''"
| "stringify (JObj ps) = CHR ''{'' # stringify_members ps @ ''}''"
| "stringify_elems [] = []"
| "stringify_elems [v] = stringify v"
| "stringify_elems (v # w # vs) = stringify v @ CHR '','' # stringify_elems (w # vs)"
| "stringify_members [] = []"
| "stringify_members [(k, v)] = quote k @ CHR '':'' # stringify v"
| "stringify_members ((k, v) # p # ps) =
     quote k @ CHR '':'' # stringify v @ CHR '','' # stringify_members (p # ps)"

subsection \<open>\<^verbatim>\<open>JSON.parse\<close>\<close>

text \<open>
  Parsing has two passes. The first cuts the text into tokens and fails on a character
  that starts no token, on an unterminated string, on a raw control character or a bad
  escape inside a string, and on a number with a leading zero. The second runs a stack
  machine over the tokens; it fails on anything the JSON grammar refuses (a trailing comma,
  a missing colon, text after the value, an empty text). A failure is the
  \<^verbatim>\<open>SyntaxError\<close> that \<^verbatim>\<open>JSON.parse\<close> throws. Number tokens with a fraction or
  an exponent are refused too: they are outside the model, as said above.
\<close>

datatype token = TLBrace | TRBrace | TLBrack | TRBrack | TColon | TComma
  | TStr string | TNum int | TTrue | TFalse | TNull

definition unescape :: "char \<Rightarrow> char option" where
  "unescape e =
    (if e = dquote then Some dquote
     else if e = backslash then Some backslash
     else if e = CHR ''/'' then Some (CHR ''/'')
     else if e = CHR ''b'' then Some (CHR 0x08)
     else if e = CHR ''f'' then Some (CHR 0x0C)
     else if e = CHR ''n'' then Some (CHR 0x0A)
     else if e = CHR ''r'' then Some (CHR 0x0D)
     else if e = CHR ''t'' then Some (CHR 0x09)
     else None)"

definition hex4 :: "char \<Rightarrow> char \<Rightarrow> char \<Rightarrow> char \<Rightarrow> nat option" where
  "hex4 a b c d =
    (case (hex_val a, hex_val b, hex_val c, hex_val d) of
       (Some w, Some x, Some y, Some z) \<Rightarrow> Some (((w * 16 + x) * 16 + y) * 16 + z)
     | _ \<Rightarrow> None)"

definition cons_fst :: "'a \<Rightarrow> ('a list \<times> 'b) option \<Rightarrow> ('a list \<times> 'b) option" where
  "cons_fst c r = map_option (\<lambda>(s, rest). (c # s, rest)) r"

text \<open>The characters of a string token after its opening quote, and the text after it.\<close>

fun lex_string :: "string \<Rightarrow> (string \<times> string) option" where
  "lex_string [] = None"
| "lex_string (c # cs) =
    (if c = dquote then Some ([], cs)
     else if c = backslash then
       (case cs of
          [] \<Rightarrow> None
        | e # cs1 \<Rightarrow>
            if e = CHR ''u'' then
              (case cs1 of
                 h1 # h2 # h3 # h4 # cs2 \<Rightarrow>
                   (case hex4 h1 h2 h3 h4 of
                      None \<Rightarrow> None
                    | Some n \<Rightarrow> if n < 256 then cons_fst (char_of n) (lex_string cs2) else None)
               | _ \<Rightarrow> None)
            else
              (case unescape e of
                 None \<Rightarrow> None
               | Some d \<Rightarrow> cons_fst d (lex_string cs1)))
     else if (of_char c :: nat) < 32 then None
     else cons_fst c (lex_string cs))"

definition is_ws :: "char \<Rightarrow> bool" where
  "is_ws c = (c = CHR '' '' \<or> c = CHR 0x09 \<or> c = CHR 0x0A \<or> c = CHR 0x0D)"

definition lex_number :: "string \<Rightarrow> (nat \<times> string) option" where
  "lex_number cs =
    (let ds = takeWhile is_digit cs; rest = dropWhile is_digit cs in
     if ds = [] then None
     else if hd ds = CHR ''0'' \<and> length ds > 1 then None
     else if rest \<noteq> [] \<and> hd rest \<in> {CHR ''.'', CHR ''e'', CHR ''E''} then None
     else Some (read_nat ds, rest))"

definition cons_tok :: "token \<Rightarrow> token list option \<Rightarrow> token list option" where
  "cons_tok t r = map_option ((#) t) r"

function tokenize :: "string \<Rightarrow> token list option" where
  "tokenize [] = Some []"
| "tokenize (c # cs) =
    (if is_ws c then tokenize cs
     else if c = CHR ''{'' then cons_tok TLBrace (tokenize cs)
     else if c = CHR ''}'' then cons_tok TRBrace (tokenize cs)
     else if c = CHR ''['' then cons_tok TLBrack (tokenize cs)
     else if c = CHR '']'' then cons_tok TRBrack (tokenize cs)
     else if c = CHR '':'' then cons_tok TColon (tokenize cs)
     else if c = CHR '','' then cons_tok TComma (tokenize cs)
     else if c = dquote then
       (case lex_string cs of
          None \<Rightarrow> None
        | Some (s, rest) \<Rightarrow> cons_tok (TStr s) (tokenize rest))
     else if c = CHR ''-'' then
       (case lex_number cs of
          None \<Rightarrow> None
        | Some (n, rest) \<Rightarrow> cons_tok (TNum (- int n)) (tokenize rest))
     else if is_digit c then
       (case lex_number (c # cs) of
          None \<Rightarrow> None
        | Some (n, rest) \<Rightarrow> cons_tok (TNum (int n)) (tokenize rest))
     else if take 3 cs = ''rue'' \<and> c = CHR ''t'' then cons_tok TTrue (tokenize (drop 3 cs))
     else if take 4 cs = ''alse'' \<and> c = CHR ''f'' then cons_tok TFalse (tokenize (drop 4 cs))
     else if take 3 cs = ''ull'' \<and> c = CHR ''n'' then cons_tok TNull (tokenize (drop 3 cs))
     else None)"
  by pat_completeness auto

lemma lex_string_shorter: "lex_string cs = Some (s, rest) \<Longrightarrow> length rest < Suc (length cs)"
proof (induction cs arbitrary: s rest rule: lex_string.induct)
  case 1
  then show ?case by simp
next
  case (2 c cs)
  then show ?case
    by (fastforce simp: cons_fst_def less_Suc_eq
        split: if_splits list.splits option.splits)
qed

lemma lex_number_shorter: "lex_number cs = Some (n, rest) \<Longrightarrow> length rest < length cs"
proof -
  assume a: "lex_number cs = Some (n, rest)"
  then have r: "rest = dropWhile is_digit cs" and ne: "takeWhile is_digit cs \<noteq> []"
    by (auto simp: lex_number_def Let_def split: if_splits)
  have "length (takeWhile is_digit cs) + length (dropWhile is_digit cs) = length cs"
    by (metis length_append takeWhile_dropWhile_id)
  with ne r show ?thesis by (cases "takeWhile is_digit cs") auto
qed

termination tokenize
proof (relation "measure length", goal_cases)
  case 1
  then show ?case by simp
next
  case (9 c cs x2 x y)
  then show ?case using lex_string_shorter [of cs x y] by simp
next
  case (10 c cs x2 x y)
  then show ?case using lex_number_shorter [of cs x y] by simp
next
  case (11 c cs x2 x y)
  then show ?case using lex_number_shorter [of "c # cs" x y] by simp
qed simp_all

text \<open>
  The machine keeps one frame for every array or object that is still open: the elements
  read so far, or the members read so far and the key that waits for its value. A
  property that is given twice keeps its first position and takes its last value, as an
  assignment to an existing property does.
\<close>

datatype frame = FArr "json list" | FObj "(string \<times> json) list" string

datatype mode = MVal | MFirstElem | MFirstKey | MKey | MColon | MSep | MDone json

fun set_prop :: "(string \<times> json) list \<Rightarrow> string \<Rightarrow> json \<Rightarrow> (string \<times> json) list" where
  "set_prop [] k v = [(k, v)]"
| "set_prop ((k', v') # ps) k v =
    (if k' = k then (k, v) # ps else (k', v') # set_prop ps k v)"

definition make_obj :: "(string \<times> json) list \<Rightarrow> json" where
  "make_obj ms = JObj (foldl (\<lambda>acc (k, v). set_prop acc k v) [] ms)"

fun push_value :: "json \<Rightarrow> frame list \<Rightarrow> frame list \<times> mode" where
  "push_value v [] = ([], MDone v)"
| "push_value v (FArr acc # st) = (FArr (v # acc) # st, MSep)"
| "push_value v (FObj acc k # st) = (FObj ((k, v) # acc) k # st, MSep)"

fun step :: "token \<Rightarrow> frame list \<times> mode \<Rightarrow> (frame list \<times> mode) option" where
  "step t (st, MDone v) = None"
| "step t (st, MColon) = (if t = TColon then Some (st, MVal) else None)"
| "step t (st, MSep) =
    (case st of
       [] \<Rightarrow> None
     | FArr acc # st' \<Rightarrow>
         if t = TComma then Some (st, MVal)
         else if t = TRBrack then Some (push_value (JArr (rev acc)) st')
         else None
     | FObj acc k # st' \<Rightarrow>
         if t = TComma then Some (st, MKey)
         else if t = TRBrace then Some (push_value (make_obj (rev acc)) st')
         else None)"
| "step t (st, MKey) =
    (case (t, st) of
       (TStr k, FObj acc _ # st') \<Rightarrow> Some (FObj acc k # st', MColon)
     | _ \<Rightarrow> None)"
| "step t (st, MFirstKey) =
    (case (t, st) of
       (TStr k, FObj acc _ # st') \<Rightarrow> Some (FObj acc k # st', MColon)
     | (TRBrace, FObj acc _ # st') \<Rightarrow> Some (push_value (JObj []) st')
     | _ \<Rightarrow> None)"
| "step t (st, MFirstElem) =
    (case t of
       TRBrack \<Rightarrow> (case st of FArr acc # st' \<Rightarrow> Some (push_value (JArr []) st') | _ \<Rightarrow> None)
     | TNull \<Rightarrow> Some (push_value JNull st)
     | TTrue \<Rightarrow> Some (push_value (JBool True) st)
     | TFalse \<Rightarrow> Some (push_value (JBool False) st)
     | TNum i \<Rightarrow> Some (push_value (JNum i) st)
     | TStr s \<Rightarrow> Some (push_value (JStr s) st)
     | TLBrack \<Rightarrow> Some (FArr [] # st, MFirstElem)
     | TLBrace \<Rightarrow> Some (FObj [] [] # st, MFirstKey)
     | _ \<Rightarrow> None)"
| "step t (st, MVal) =
    (case t of
       TNull \<Rightarrow> Some (push_value JNull st)
     | TTrue \<Rightarrow> Some (push_value (JBool True) st)
     | TFalse \<Rightarrow> Some (push_value (JBool False) st)
     | TNum i \<Rightarrow> Some (push_value (JNum i) st)
     | TStr s \<Rightarrow> Some (push_value (JStr s) st)
     | TLBrack \<Rightarrow> Some (FArr [] # st, MFirstElem)
     | TLBrace \<Rightarrow> Some (FObj [] [] # st, MFirstKey)
     | _ \<Rightarrow> None)"

fun steps :: "token list \<Rightarrow> frame list \<times> mode \<Rightarrow> (frame list \<times> mode) option" where
  "steps [] cfg = Some cfg"
| "steps (t # ts) cfg = (case step t cfg of None \<Rightarrow> None | Some cfg' \<Rightarrow> steps ts cfg')"

definition parse :: "string \<Rightarrow> json option" where
  "parse s =
    (case tokenize s of
       None \<Rightarrow> None
     | Some ts \<Rightarrow>
         (case steps ts ([], MVal) of
            Some (st, MDone v) \<Rightarrow> Some v
          | _ \<Rightarrow> None))"

subsection \<open>The JavaScript operators the handlers use\<close>

text \<open>
  A value that may be \<^verbatim>\<open>undefined\<close> is a \<^typ>\<open>json option\<close>. The condition of an
  \<^verbatim>\<open>if\<close> tests truthiness: null, false, zero and the empty string are falsy.
\<close>

fun truthy :: "json \<Rightarrow> bool" where
  "truthy JNull = False"
| "truthy (JBool b) = b"
| "truthy (JNum i) = (i \<noteq> 0)"
| "truthy (JStr s) = (s \<noteq> [])"
| "truthy (JArr vs) = True"
| "truthy (JObj ps) = True"

definition js_not :: "json option \<Rightarrow> json" where
  "js_not x = JBool (\<not> (case x of None \<Rightarrow> False | Some v \<Rightarrow> truthy v))"

text \<open>
  \<^verbatim>\<open>x instanceof String\<close> holds when \<^verbatim>\<open>String.prototype\<close> is on the prototype
  chain of \<^verbatim>\<open>x\<close>. A primitive has no prototype chain, and the arrays and objects of a
  parsed body have \<^verbatim>\<open>Array.prototype\<close> and \<^verbatim>\<open>Object.prototype\<close>.
\<close>

fun instanceof_String :: "json \<Rightarrow> bool" where
  "instanceof_String JNull = False"
| "instanceof_String (JBool b) = False"
| "instanceof_String (JNum i) = False"
| "instanceof_String (JStr s) = False"
| "instanceof_String (JArr vs) = False"
| "instanceof_String (JObj ps) = False"

text \<open>\<^verbatim>\<open>JSON.stringify(undefined)\<close> is \<^verbatim>\<open>undefined\<close>; of a value it is a string.\<close>

definition js_stringify :: "json option \<Rightarrow> json option" where
  "js_stringify x = map_option (\<lambda>v. JStr (stringify v)) x"

text \<open>
  Reading a property of \<^verbatim>\<open>undefined\<close> or \<^verbatim>\<open>null\<close> throws a TypeError, which
  \<open>destructure\<close> reports as \<open>None\<close>; a property that an object does not have, and any of
  the properties read here on a value that is not an object, is \<^verbatim>\<open>undefined\<close>.
\<close>

definition destructure :: "json option \<Rightarrow> json option" where
  "destructure body = (case body of None \<Rightarrow> None | Some JNull \<Rightarrow> None | Some b \<Rightarrow> Some b)"

fun get_prop :: "json \<Rightarrow> string \<Rightarrow> json option" where
  "get_prop (JObj ps) k = map_of ps k"
| "get_prop _ k = None"

text \<open>
  \<^verbatim>\<open>for (const key in input)\<close> with the own-property test of part_007, line 27: the
  own enumerable properties of an object, the indices of an array or of a string, and
  nothing for \<^verbatim>\<open>undefined\<close>, null, a number or a boolean.
\<close>

fun for_in :: "json option \<Rightarrow> (string \<times> json) list" where
  "for_in (Some (JObj ps)) = ps"
| "for_in (Some (JArr vs)) = zip (map show_nat [0..<length vs]) vs"
| "for_in (Some (JStr s)) = zip (map show_nat [0..<length s]) (map (\<lambda>c. JStr [c]) s)"
| "for_in _ = []"

subsection \<open>Errors, effects and the world\<close>

datatype js_error =
    TypeError
  | SyntaxError
  | FetchFailed
  | HttpError string json nat
  | PrismaValidationError
  | PrismaNotFound
  | PrismaUniqueViolation
  | PrismaUnavailable
  | OutsideModel

text \<open>
  \<^verbatim>\<open>agent.variables[key] = element\<close> (part_007, line 29) in a module, which is strict
  code. On a plain object the assignment sets an own property, except for the key
  \<^verbatim>\<open>__proto__\<close> when the object has no own property of that name: the assignment then
  reaches the setter inherited from \<^verbatim>\<open>Object.prototype\<close>, which changes or keeps the
  prototype and creates no property. On null it throws, on another primitive it throws
  unless the inherited setter takes it. The index and length properties of an array are
  not modelled.
\<close>

fun assign_prop :: "json \<Rightarrow> string \<Rightarrow> json \<Rightarrow> js_error + json" where
  "assign_prop (JObj ps) k v =
    (if k = ''__proto__'' \<and> map_of ps k = None then Inr (JObj ps)
     else Inr (JObj (set_prop ps k v)))"
| "assign_prop (JArr vs) k v = Inl OutsideModel"
| "assign_prop JNull k v = Inl TypeError"
| "assign_prop prim k v = (if k = ''__proto__'' then Inr prim else Inl TypeError)"

fun assign_all :: "json \<Rightarrow> (string \<times> json) list \<Rightarrow> js_error + json" where
  "assign_all variables [] = Inr variables"
| "assign_all variables ((key, element) # rest) =
    (case assign_prop variables key element of
       Inl error \<Rightarrow> Inl error
     | Inr variables' \<Rightarrow> assign_all variables' rest)"

text \<open>
  What an \<^verbatim>\<open>async\<close> function hands back to a caller that tests
  \<^verbatim>\<open>instanceof Error\<close>: parsed data or an Error object.
\<close>

datatype js_ret = RetData json | RetError js_error

text \<open>The reply to a \<^verbatim>\<open>fetch\<close>: a transport failure, or a status and a body.\<close>

datatype fetch_reply = NetFail | Reply nat string

text \<open>
  The observable effects, in order: a call of the Prisma client, a \<^verbatim>\<open>snooze\<close> of so
  many milliseconds, a \<^verbatim>\<open>console.log\<close> of an error, and a \<^verbatim>\<open>fetch\<close> that posts a
  body to a URL.
\<close>

datatype event = EvQuery string | EvSnooze nat | EvLog js_error | EvFetch string string

datatype http_response = Response nat json

text \<open>The models \<^verbatim>\<open>Agent\<close> and \<^verbatim>\<open>Task\<close> of the Prisma schema (part_006, lines 65 to 91).\<close>

record agent =
  a_id :: string
  a_name :: string
  a_description :: "string option"
  a_variables :: string
  a_workflow :: string

record task =
  t_id :: string
  t_agentId :: string
  t_logs :: string
  t_output :: string
  t_status :: string
  t_callback :: "string option"

record 'r world =
  agents :: "agent list"
  tasks :: "'r list"
  db_faults :: "bool list"
  cuids :: "string list"
  net :: "fetch_reply list"
  trace :: "event list"

text \<open>The enum \<^verbatim>\<open>Status\<close> (part_006, lines 93 to 97; part_005, line 8).\<close>

definition Status :: "string list" where
  "Status = [''running'', ''complete'', ''error'']"

definition emit :: "event \<Rightarrow> 'r world \<Rightarrow> 'r world" where
  "emit e w = w\<lparr>trace := trace w @ [e]\<rparr>"

text \<open>
  Whether the database is unreachable for the next query, the next generated id, and the
  next reply of the network. An exhausted list means no fault, the empty id and a
  transport failure.
\<close>

definition db_fault :: "'r world \<Rightarrow> bool \<times> 'r world" where
  "db_fault w = (case db_faults w of [] \<Rightarrow> (False, w) | f # fs \<Rightarrow> (f, w\<lparr>db_faults := fs\<rparr>))"

definition next_cuid :: "'r world \<Rightarrow> string \<times> 'r world" where
  "next_cuid w = (case cuids w of [] \<Rightarrow> ([], w) | c # cs \<Rightarrow> (c, w\<lparr>cuids := cs\<rparr>))"

definition next_reply :: "'r world \<Rightarrow> fetch_reply \<times> 'r world" where
  "next_reply w = (case net w of [] \<Rightarrow> (NetFail, w) | r # rs \<Rightarrow> (r, w\<lparr>net := rs\<rparr>))"

text \<open>
  The body of \<^verbatim>\<open>res.json(error)\<close>: an Error object has no enumerable property of its
  own but the \<^verbatim>\<open>info\<close> and \<^verbatim>\<open>status\<close> that \<^verbatim>\<open>runAgent\<close> and
  \<^verbatim>\<open>fireCallback\<close> attach.
\<close>

fun error_json :: "js_error \<Rightarrow> json" where
  "error_json (HttpError msg info st) = JObj [(''info'', info), (''status'', JNum (int st))]"
| "error_json _ = JObj []"

subsection \<open>The Prisma client on the tables \<^verbatim>\<open>Agent\<close> and \<^verbatim>\<open>Task\<close>\<close>

text \<open>
  The client checks the arguments of a call against the schema before it sends a query:
  the id of a \<^verbatim>\<open>where\<close> is a string, a \<^verbatim>\<open>String\<close> column takes a string, a
  \<^verbatim>\<open>Status\<close> column takes one of the three names of the enum, a field given as
  \<^verbatim>\<open>undefined\<close> is left out, and a required field that is left out of a
  \<^verbatim>\<open>create\<close> is an error. The query itself fails when the database is unreachable,
  when \<^verbatim>\<open>update\<close> finds no record and when \<^verbatim>\<open>create\<close> finds the id taken.
\<close>

fun check_id :: "json option \<Rightarrow> string option" where
  "check_id (Some (JStr i)) = Some i"
| "check_id _ = None"

fun check_string :: "json option \<Rightarrow> string option option" where
  "check_string None = Some None"
| "check_string (Some (JStr s)) = Some (Some s)"
| "check_string (Some _) = None"

fun check_status :: "json option \<Rightarrow> string option option" where
  "check_status None = Some None"
| "check_status (Some (JStr s)) = (if s \<in> set Status then Some (Some s) else None)"
| "check_status (Some _) = None"

fun required :: "'a option option \<Rightarrow> 'a option" where
  "required (Some (Some x)) = Some x"
| "required _ = None"

definition or_keep :: "'a option \<Rightarrow> 'a \<Rightarrow> 'a" where
  "or_keep x old = (case x of None \<Rightarrow> old | Some new \<Rightarrow> new)"

definition prisma_agent_findUnique ::
  "string \<Rightarrow> 'r world \<Rightarrow> (js_error + agent option) \<times> 'r world" where
  "prisma_agent_findUnique i w0 =
    (let w = emit (EvQuery ''agent.findUnique'') w0;
         (down, w1) = db_fault w
     in if down then (Inl PrismaUnavailable, w1)
        else (Inr (find (\<lambda>a. a_id a = i) (agents w1)), w1))"

definition prisma_task_findUnique ::
  "string \<Rightarrow> task world \<Rightarrow> (js_error + task option) \<times> task world" where
  "prisma_task_findUnique i w0 =
    (let w = emit (EvQuery ''task.findUnique'') w0;
         (down, w1) = db_fault w
     in if down then (Inl PrismaUnavailable, w1)
        else (Inr (find (\<lambda>r. t_id r = i) (tasks w1)), w1))"

definition prisma_task_create ::
  "json option \<Rightarrow> json option \<Rightarrow> json option \<Rightarrow> json option \<Rightarrow> json option
    \<Rightarrow> task world \<Rightarrow> (js_error + task) \<times> task world" where
  "prisma_task_create d_id d_agentId d_status d_logs d_output w0 =
    (let w = emit (EvQuery ''task.create'') w0 in
     case (check_string d_id, required (check_string d_agentId), required (check_status d_status),
           required (check_string d_logs), required (check_string d_output)) of
       (Some oid, Some aid, Some st, Some lg, Some out) \<Rightarrow>
         (let (down, w1) = db_fault w in
          if down then (Inl PrismaUnavailable, w1)
          else
            (let (i, w2) = (case oid of Some i \<Rightarrow> (i, w1) | None \<Rightarrow> next_cuid w1) in
             if find (\<lambda>r. t_id r = i) (tasks w2) \<noteq> None then (Inl PrismaUniqueViolation, w2)
             else
               (let row = \<lparr>t_id = i, t_agentId = aid, t_logs = lg, t_output = out,
                           t_status = st, t_callback = None\<rparr>
                in (Inr row, w2\<lparr>tasks := tasks w2 @ [row]\<rparr>))))
     | _ \<Rightarrow> (Inl PrismaValidationError, w))"

definition prisma_task_update ::
  "json option \<Rightarrow> json option \<Rightarrow> json option \<Rightarrow> json option
    \<Rightarrow> task world \<Rightarrow> (js_error + task) \<times> task world" where
  "prisma_task_update w_id d_status d_logs d_output w0 =
    (let w = emit (EvQuery ''task.update'') w0 in
     case (check_id w_id, check_status d_status, check_string d_logs, check_string d_output) of
       (Some i, Some st, Some lg, Some out) \<Rightarrow>
         (let (down, w1) = db_fault w in
          if down then (Inl PrismaUnavailable, w1)
          else
            (case find (\<lambda>r. t_id r = i) (tasks w1) of
               None \<Rightarrow> (Inl PrismaNotFound, w1)
             | Some r \<Rightarrow>
                 (let row = r\<lparr>t_status := or_keep st (t_status r), t_logs := or_keep lg (t_logs r),
                              t_output := or_keep out (t_output r)\<rparr>
                  in (Inr row,
                      w1\<lparr>tasks := map (\<lambda>x. if t_id x = i then row else x) (tasks w1)\<rparr>))))
     | _ \<Rightarrow> (Inl PrismaValidationError, w))"

text \<open>
  \<^verbatim>\<open>prisma.task.upsert\<close> takes a \<^verbatim>\<open>where\<close>, a \<^verbatim>\<open>create\<close> and an
  \<^verbatim>\<open>update\<close>. All three are checked against the schema before the query is sent,
  whichever of the two the query would use: the \<^verbatim>\<open>create\<close> must give
  \<^verbatim>\<open>agentId\<close>, \<^verbatim>\<open>status\<close>, \<^verbatim>\<open>logs\<close> and \<^verbatim>\<open>output\<close>, which the model
  \<^verbatim>\<open>Task\<close> requires (part_006, lines 79 to 91). The query updates the record with the
  id of the \<^verbatim>\<open>where\<close> if there is one, and creates the record of the
  \<^verbatim>\<open>create\<close> otherwise.
\<close>

definition prisma_task_upsert ::
  "json option \<Rightarrow> json option \<Rightarrow> json option \<Rightarrow> json option \<Rightarrow> json option \<Rightarrow> json option
    \<Rightarrow> json option \<Rightarrow> json option \<Rightarrow> json option
    \<Rightarrow> task world \<Rightarrow> (js_error + task) \<times> task world" where
  "prisma_task_upsert w_id c_id c_agentId c_status c_logs c_output u_status u_logs u_output w0 =
    (let w = emit (EvQuery ''task.upsert'') w0 in
     case (check_id w_id, check_string c_id, required (check_string c_agentId),
           required (check_status c_status), required (check_string c_logs),
           required (check_string c_output)) of
       (Some i, Some oid, Some aid, Some st, Some lg, Some out) \<Rightarrow>
         (case (check_status u_status, check_string u_logs, check_string u_output) of
            (Some ust, Some ulg, Some uout) \<Rightarrow>
              (let (down, w1) = db_fault w in
               if down then (Inl PrismaUnavailable, w1)
               else
                 (case find (\<lambda>r. t_id r = i) (tasks w1) of
                    Some r \<Rightarrow>
                      (let row = r\<lparr>t_status := or_keep ust (t_status r),
                                   t_logs := or_keep ulg (t_logs r),
                                   t_output := or_keep uout (t_output r)\<rparr>
                       in (Inr row,
                           w1\<lparr>tasks := map (\<lambda>x. if t_id x = i then row else x) (tasks w1)\<rparr>))
                  | None \<Rightarrow>
                      (let (j, w2) = (case oid of Some j \<Rightarrow> (j, w1) | None \<Rightarrow> next_cuid w1) in
                       if find (\<lambda>r. t_id r = j) (tasks w2) \<noteq> None
                       then (Inl PrismaUniqueViolation, w2)
                       else
                         (let row = \<lparr>t_id = j, t_agentId = aid, t_logs = lg, t_output = out,
                                     t_status = st, t_callback = None\<rparr>
                          in (Inr row, w2\<lparr>tasks := tasks w2 @ [row]\<rparr>)))))
          | _ \<Rightarrow> (Inl PrismaValidationError, w))
     | _ \<Rightarrow> (Inl PrismaValidationError, w))"

text \<open>
  The object that a handler answers with: the record, its \<^verbatim>\<open>logs\<close> and
  \<^verbatim>\<open>output\<close> replaced by their parsed values.
\<close>

definition task_json :: "task \<Rightarrow> json \<Rightarrow> json \<Rightarrow> json" where
  "task_json r lg out =
    JObj [(''id'', JStr (t_id r)), (''agentId'', JStr (t_agentId r)), (''logs'', lg),
          (''output'', out), (''status'', JStr (t_status r)),
          (''callback'', case t_callback r of None \<Rightarrow> JNull | Some u \<Rightarrow> JStr u)]"

subsection \<open>The retry loop of the callback handlers\<close>

text \<open>
  The three callback handlers share one loop (part_008, lines 19 to 48):
  \<^verbatim>\<open>let retries = 5; while (retries > 0) { try { ...; return } catch (error) {
  await snooze(2000); console.log(error); retries-- } } res.status(500).json(...)\<close>.
  The body of the \<^verbatim>\<open>try\<close> is the argument \<open>attempt\<close>: it answers, or it throws in
  a world that keeps what it did before it threw.
\<close>

definition unable :: http_response where
  "unable = Response 500 (JObj [(''message'', JStr ''Unable to update user data'')])"

fun retry_loop ::
  "nat \<Rightarrow> ('r world \<Rightarrow> (js_error + http_response) \<times> 'r world) \<Rightarrow> 'r world
    \<Rightarrow> http_response \<times> 'r world" where
  "retry_loop 0 attempt w = (unable, w)"
| "retry_loop (Suc retries) attempt w =
    (case attempt w of
       (Inr resp, w1) \<Rightarrow> (resp, w1)
     | (Inl error, w1) \<Rightarrow>
         retry_loop retries attempt (emit (EvLog error) (emit (EvSnooze 2000) w1)))"

subsection \<open>The upsert handler (part_008)\<close>

text \<open>
  Lines 22 to 40: the upsert, whose \<^verbatim>\<open>create\<close> is \<^verbatim>\<open>{ id: id, logs:
  JSON.stringify(logs), output: output }\<close> and whose \<^verbatim>\<open>update\<close> is \<^verbatim>\<open>{ logs:
  JSON.stringify(logs), output: output }\<close>, neither with an agentId or a status; then the
  two \<^verbatim>\<open>JSON.parse\<close> and the answer 200.
\<close>

definition upsert_attempt ::
  "json option \<Rightarrow> json option \<Rightarrow> json option \<Rightarrow> task world
    \<Rightarrow> (js_error + http_response) \<times> task world" where
  "upsert_attempt tid logs output w =
    (case prisma_task_upsert tid tid None None (js_stringify logs) output
            None (js_stringify logs) output w of
       (Inl error, w1) \<Rightarrow> (Inl error, w1)
     | (Inr dbTask, w1) \<Rightarrow>
         (case parse (t_logs dbTask) of
            None \<Rightarrow> (Inl SyntaxError, w1)
          | Some lg \<Rightarrow>
              (case parse (t_output dbTask) of
                 None \<Rightarrow> (Inl SyntaxError, w1)
               | Some out \<Rightarrow> (Inr (Response 200 (task_json dbTask lg out)), w1))))"

text \<open>
  Lines 12 to 17: \<^verbatim>\<open>const { id, logs, output } = req.body;
  if (!output instanceof String) { output = JSON.stringify(output); }\<close>. The branch
  assigns to a constant, which throws a TypeError.
\<close>

definition callback_upsert_handler ::
  "json option \<Rightarrow> task world \<Rightarrow> (js_error + http_response) \<times> task world" where
  "callback_upsert_handler body w =
    (case destructure body of
       None \<Rightarrow> (Inl TypeError, w)
     | Some b \<Rightarrow>
         (let tid = get_prop b ''id''; logs = get_prop b ''logs''; output = get_prop b ''output'' in
          if instanceof_String (js_not output) then (Inl TypeError, w)
          else (case retry_loop 5 (upsert_attempt tid logs output) w of
                  (resp, w1) \<Rightarrow> (Inr resp, w1))))"

subsection \<open>The update handler (\<^verbatim>\<open>pages/api/v1/callback/task/index.js\<close>)\<close>

text \<open>
  Lines 17 to 30: \<^verbatim>\<open>prisma.task.update\<close> with the stringified logs and output and
  no status, the two \<^verbatim>\<open>JSON.parse\<close> and the answer 200.
\<close>

definition update_attempt ::
  "json option \<Rightarrow> json option \<Rightarrow> json option \<Rightarrow> task world
    \<Rightarrow> (js_error + http_response) \<times> task world" where
  "update_attempt tid logs output w =
    (case prisma_task_update tid None (js_stringify logs) (js_stringify output) w of
       (Inl error, w1) \<Rightarrow> (Inl error, w1)
     | (Inr dbTask, w1) \<Rightarrow>
         (case parse (t_logs dbTask) of
            None \<Rightarrow> (Inl SyntaxError, w1)
          | Some lg \<Rightarrow>
              (case parse (t_output dbTask) of
                 None \<Rightarrow> (Inl SyntaxError, w1)
               | Some out \<Rightarrow> (Inr (Response 200 (task_json dbTask lg out)), w1))))"

definition callback_update_handler ::
  "json option \<Rightarrow> task world \<Rightarrow> (js_error + http_response) \<times> task world" where
  "callback_update_handler body w =
    (case destructure body of
       None \<Rightarrow> (Inl TypeError, w)
     | Some b \<Rightarrow>
         (let tid = get_prop b ''id''; logs = get_prop b ''logs''; output = get_prop b ''output'' in
          case retry_loop 5 (update_attempt tid logs output) w of
            (resp, w1) \<Rightarrow> (Inr resp, w1)))"

subsection \<open>\<^verbatim>\<open>runAgent\<close> and \<^verbatim>\<open>fireCallback\<close>\<close>

text \<open>
  \<^verbatim>\<open>runAgent\<close> (\<^verbatim>\<open>utils/server/run-workflow.js\<close>, lines 5 to 32) and
  \<^verbatim>\<open>fireCallback\<close> (\<^verbatim>\<open>pages/api/v1/agent/index.js\<close>, lines 108 to 134) are the same
  function but for the URL and the message of the error: one \<^verbatim>\<open>fetch\<close> that posts the
  stringified payload; on a reply that is not \<^verbatim>\<open>ok\<close> an Error with the parsed body
  and the status is thrown; otherwise the body is parsed, handed to \<^verbatim>\<open>onSuccess\<close> if
  there is one, and returned. The \<^verbatim>\<open>catch\<close> logs what was thrown, hands it to
  \<^verbatim>\<open>onError\<close> if there is one, and returns it. A callback is a function that may
  throw (\<open>Some\<close> of what it throws).
\<close>

definition ok :: "nat \<Rightarrow> bool" where
  "ok st = (200 \<le> st \<and> st \<le> 299)"

definition call_back :: "('a \<Rightarrow> js_error option) option \<Rightarrow> 'a \<Rightarrow> js_error option" where
  "call_back cb x = (case cb of None \<Rightarrow> None | Some f \<Rightarrow> f x)"

definition post_json ::
  "string \<Rightarrow> string \<Rightarrow> json \<Rightarrow> (json \<Rightarrow> js_error option) option
    \<Rightarrow> (js_error \<Rightarrow> js_error option) option \<Rightarrow> 'r world \<Rightarrow> (js_error + js_ret) \<times> 'r world" where
  "post_json failure url payload onSuccess onError w0 =
    (let w = emit (EvFetch url (stringify payload)) w0;
         (res, w1) = next_reply w;
         attempt =
           (case res of
              NetFail \<Rightarrow> Inl FetchFailed
            | Reply st text \<Rightarrow>
                if \<not> ok st then
                  (case parse text of
                     None \<Rightarrow> Inl SyntaxError
                   | Some info \<Rightarrow> Inl (HttpError failure info st))
                else
                  (case parse text of
                     None \<Rightarrow> Inl SyntaxError
                   | Some data \<Rightarrow>
                       (case call_back onSuccess data of
                          Some thrown \<Rightarrow> Inl thrown
                        | None \<Rightarrow> Inr data)))
     in case attempt of
          Inr data \<Rightarrow> (Inr (RetData data), w1)
        | Inl error \<Rightarrow>
            (let w2 = emit (EvLog error) w1 in
             case call_back onError error of
               Some thrown \<Rightarrow> (Inl thrown, w2)
             | None \<Rightarrow> (Inr (RetError error), w2)))"

definition runAgent ::
  "string \<Rightarrow> json \<Rightarrow> (json \<Rightarrow> js_error option) option
    \<Rightarrow> (js_error \<Rightarrow> js_error option) option \<Rightarrow> 'r world \<Rightarrow> (js_error + js_ret) \<times> 'r world" where
  "runAgent ENGINE_BASE_ENDPOINT agent onSuccess onError w =
    post_json ''Failed to start agent task'' (ENGINE_BASE_ENDPOINT @ ''/api/task'')
      agent onSuccess onError w"

definition fireCallback ::
  "string \<Rightarrow> json \<Rightarrow> (json \<Rightarrow> js_error option) option
    \<Rightarrow> (js_error \<Rightarrow> js_error option) option \<Rightarrow> 'r world \<Rightarrow> (js_error + js_ret) \<times> 'r world" where
  "fireCallback url taskData onSuccess onError w =
    post_json ''Failed to make callback call'' url taskData onSuccess onError w"

subsection \<open>The handler that notifies (\<^verbatim>\<open>pages/api/v1/agent/index.js\<close>, lines 62 to 98)\<close>

text \<open>
  Lines 70 to 89: the update, now with \<^verbatim>\<open>status: status\<close>, the two
  \<^verbatim>\<open>JSON.parse\<close>, then \<^verbatim>\<open>if (dbTask.callback) { await fireCallback({ url:
  dbTask.callback, taskData: dbTask}); }\<close> and the answer 200.
\<close>

definition notify_attempt ::
  "json option \<Rightarrow> json option \<Rightarrow> json option \<Rightarrow> json option \<Rightarrow> task world
    \<Rightarrow> (js_error + http_response) \<times> task world" where
  "notify_attempt tid logs output status w =
    (case prisma_task_update tid status (js_stringify logs) (js_stringify output) w of
       (Inl error, w1) \<Rightarrow> (Inl error, w1)
     | (Inr dbTask, w1) \<Rightarrow>
         (case parse (t_logs dbTask) of
            None \<Rightarrow> (Inl SyntaxError, w1)
          | Some lg \<Rightarrow>
              (case parse (t_output dbTask) of
                 None \<Rightarrow> (Inl SyntaxError, w1)
               | Some out \<Rightarrow>
                   (case t_callback dbTask of
                      None \<Rightarrow> (Inr (Response 200 (task_json dbTask lg out)), w1)
                    | Some url \<Rightarrow>
                        if truthy (JStr url) then
                          (case fireCallback url (task_json dbTask lg out) None None w1 of
                             (Inl error, w2) \<Rightarrow> (Inl error, w2)
                           | (Inr _, w2) \<Rightarrow> (Inr (Response 200 (task_json dbTask lg out)), w2))
                        else (Inr (Response 200 (task_json dbTask lg out)), w1)))))"

definition callback_notify_handler ::
  "json option \<Rightarrow> task world \<Rightarrow> (js_error + http_response) \<times> task world" where
  "callback_notify_handler body w =
    (case destructure body of
       None \<Rightarrow> (Inl TypeError, w)
     | Some b \<Rightarrow>
         (let tid = get_prop b ''id''; logs = get_prop b ''logs''; output = get_prop b ''output'';
              status = get_prop b ''status'' in
          case retry_loop 5 (notify_attempt tid logs output status) w of
            (resp, w1) \<Rightarrow> (Inr resp, w1)))"

subsection \<open>The workflow-run handler (part_007, lines 5 to 60)\<close>

definition workflowAgent :: "agent \<Rightarrow> json \<Rightarrow> json \<Rightarrow> json" where
  "workflowAgent agent variables workflow =
    JObj [(''id'', JStr (a_id agent)), (''name'', JStr (a_name agent)),
          (''variables'', variables), (''promptChain'', workflow)]"

text \<open>
  Nothing is caught in this handler: a failing query, a stored text that does not parse,
  a failing assignment and a failing \<^verbatim>\<open>create\<close> leave it as an exception.
\<close>

definition run_handler ::
  "string \<Rightarrow> string \<Rightarrow> json option \<Rightarrow> task world \<Rightarrow> (js_error + http_response) \<times> task world" where
  "run_handler ENGINE_BASE_ENDPOINT agentId body w =
    (case destructure body of
       None \<Rightarrow> (Inl TypeError, w)
     | Some b \<Rightarrow>
    (case prisma_agent_findUnique agentId w of
       (Inl error, w1) \<Rightarrow> (Inl error, w1)
     | (Inr None, w1) \<Rightarrow> (Inr (Response 404 (JObj [(''message'', JStr ''Agent not found'')])), w1)
     | (Inr (Some agent), w1) \<Rightarrow>
    (case parse (a_variables agent) of
       None \<Rightarrow> (Inl SyntaxError, w1)
     | Some variables \<Rightarrow>
    (case parse (a_workflow agent) of
       None \<Rightarrow> (Inl SyntaxError, w1)
     | Some workflow \<Rightarrow>
    (case assign_all variables (for_in (get_prop b ''input'')) of
       Inl error \<Rightarrow> (Inl error, w1)
     | Inr seeded \<Rightarrow>
    (case runAgent ENGINE_BASE_ENDPOINT (workflowAgent agent seeded workflow) None None w1 of
       (Inl error, w2) \<Rightarrow> (Inl error, w2)
     | (Inr (RetError error), w2) \<Rightarrow>
         (Inr (Response 500 (JObj [(''message'', error_json error)])), w2)
     | (Inr (RetData response), w2) \<Rightarrow>
    (case destructure (Some response) of
       None \<Rightarrow> (Inl TypeError, w2)
     | Some r \<Rightarrow>
    (case prisma_task_create (get_prop r ''id'') (Some (JStr (a_id agent))) (get_prop r ''status'')
            (js_stringify (get_prop r ''logs'')) (js_stringify (get_prop r ''output'')) w2 of
       (Inl error, w3) \<Rightarrow> (Inl error, w3)
     | (Inr created, w3) \<Rightarrow> (Inr (Response 201 response), w3)))))))))"

subsection \<open>The Task read handler (\<^verbatim>\<open>pages/api/v1/task/[taskId]/index.js\<close>, lines 4 to 28)\<close>

definition task_get_handler :: "string \<Rightarrow> task world \<Rightarrow> http_response \<times> task world" where
  "task_get_handler taskId w =
    (let (attempt, w2) =
       (case prisma_task_findUnique taskId w of
          (Inl error, w1) \<Rightarrow> (Inl error, w1)
        | (Inr None, w1) \<Rightarrow> (Inr (Response 404 (JObj [(''message'', JStr ''Task not found'')])), w1)
        | (Inr (Some found), w1) \<Rightarrow>
            (case parse (t_logs found) of
               None \<Rightarrow> (Inl SyntaxError, w1)
             | Some lg \<Rightarrow>
                 (case parse (t_output found) of
                    None \<Rightarrow> (Inl SyntaxError, w1)
                  | Some out \<Rightarrow> (Inr (Response 200 (task_json found lg out)), w1))))
     in case attempt of
          Inr resp \<Rightarrow> (resp, w2)
        | Inl error \<Rightarrow> (Response 500 (JObj [(''message'', error_json error)]), emit (EvLog error) w2))"

subsection \<open>Definitions used to state the properties\<close>

text \<open>
  The effects of a loop of which every attempt makes the one effect \<open>q\<close>: an attempt, a
  snooze of 2000 milliseconds and the log of the error for every failed attempt, and one
  more attempt if the loop answered before it ran out of retries.
\<close>

definition retry_trace :: "event \<Rightarrow> js_error list \<Rightarrow> bool \<Rightarrow> event list" where
  "retry_trace q errs answered =
     concat (map (\<lambda>e. [q, EvSnooze 2000, EvLog e]) errs) @ (if answered then [q] else [])"


text \<open>
  The values that \<^verbatim>\<open>JSON.parse\<close> returns: no object has two properties of one name.
  On these values \<^verbatim>\<open>JSON.parse\<close> undoes \<^verbatim>\<open>JSON.stringify\<close>.
\<close>

fun wf_json :: "json \<Rightarrow> bool"
  and wf_elems :: "json list \<Rightarrow> bool"
  and wf_members :: "(string \<times> json) list \<Rightarrow> bool" where
  "wf_json JNull = True"
| "wf_json (JBool b) = True"
| "wf_json (JNum i) = True"
| "wf_json (JStr s) = True"
| "wf_json (JArr vs) = wf_elems vs"
| "wf_json (JObj ps) = (distinct (map fst ps) \<and> wf_members ps)"
| "wf_elems [] = True"
| "wf_elems (v # vs) = (wf_json v \<and> wf_elems vs)"
| "wf_members [] = True"
| "wf_members ((k, v) # ps) = (wf_json v \<and> wf_members ps)"

text \<open>The same of the partial values on the stack of the parser.\<close>

fun wf_frame :: "frame \<Rightarrow> bool" where
  "wf_frame (FArr acc) = wf_elems acc"
| "wf_frame (FObj acc k) = wf_members acc"

fun wf_cfg :: "frame list \<times> mode \<Rightarrow> bool" where
  "wf_cfg (st, MDone v) = (list_all wf_frame st \<and> wf_json v)"
| "wf_cfg (st, m) = list_all wf_frame st"

text \<open>
  The effects that a run added to the trace, and how many of them are the query \<open>q\<close>.
\<close>

definition attempts_made :: "event \<Rightarrow> event list \<Rightarrow> nat" where
  "attempts_made q evs = length (filter (\<lambda>e. e = q) evs)"

definition new_events :: "'r world \<Rightarrow> 'r world \<Rightarrow> event list" where
  "new_events w w' = drop (length (trace w)) (trace w')"

text \<open>
  Two invariants of the table of Tasks: the columns \<^verbatim>\<open>logs\<close> and \<^verbatim>\<open>output\<close> hold
  JSON texts, and the column \<^verbatim>\<open>status\<close> holds a value of the enum.
\<close>

definition parseable_store :: "task list \<Rightarrow> bool" where
  "parseable_store ts = list_all (\<lambda>r. parse (t_logs r) \<noteq> None \<and> parse (t_output r) \<noteq> None) ts"

definition status_ok :: "task list \<Rightarrow> bool" where
  "status_ok ts = list_all (\<lambda>r. t_status r \<in> set Status) ts"

text \<open>
  What the retry loop of a handler does, \<open>q\<close> being the query it attempts: some number of
  failed attempts, at most five, each followed by the snooze and the log; the answer is
  the 500 after five of them, and a 200 after fewer.
\<close>

definition bounded_retries ::
  "string \<Rightarrow> 'r world \<Rightarrow> (js_error + http_response) \<times> 'r world \<Rightarrow> bool" where
  "bounded_retries q w result =
    (\<exists>errs. length errs \<le> 5
      \<and> new_events w (snd result) = retry_trace (EvQuery q) errs (length errs < 5)
      \<and> attempts_made (EvQuery q) (new_events w (snd result)) \<le> 5
      \<and> (length errs = 5 \<longrightarrow> fst result = Inr unable)
      \<and> (length errs < 5 \<longrightarrow> (\<exists>j. fst result = Inr (Response 200 j))))"

text \<open>
  A table without the Task t1, a delivery for t1, and tables that hold it: complete with
  a database that fails five times, and running.
\<close>

definition w_gone :: "task world" where
  "w_gone = \<lparr>agents = [], tasks = [], db_faults = [], cuids = [], net = [], trace = []\<rparr>"

definition delivery1 :: json where
  "delivery1 = JObj [(''id'', JStr ''t1''), (''logs'', JArr [JStr ''done'']),
                     (''output'', JObj [(''answer'', JNum 42)]), (''status'', JStr ''complete'')]"


definition w_run :: "task world" where
  "w_run = \<lparr>agents = [],
            tasks = [\<lparr>t_id = ''t1'', t_agentId = ''a1'', t_logs = ''[]'', t_output = ''{}'',
                      t_status = ''running'', t_callback = None\<rparr>],
            db_faults = [], cuids = [], net = [], trace = []\<rparr>"

definition delivery_bogus :: json where
  "delivery_bogus = JObj [(''id'', JStr ''t1''), (''logs'', JArr []), (''output'', JObj []),
                          (''status'', JStr ''finished'')]"

text \<open>
  What a reply of the network is to \<^verbatim>\<open>runAgent\<close> and \<^verbatim>\<open>fireCallback\<close>, lines 8 to 22
  of each: the parsed body of a reply with a status from 200 to 299, and an error
  otherwise.
\<close>

fun reply_outcome :: "string \<Rightarrow> fetch_reply \<Rightarrow> js_error + json" where
  "reply_outcome failure NetFail = Inl FetchFailed"
| "reply_outcome failure (Reply st text) =
    (case parse text of
       None \<Rightarrow> Inl SyntaxError
     | Some parsed \<Rightarrow> if ok st then Inr parsed else Inl (HttpError failure parsed st))"

text \<open>A world with no agent and no Task, and the given replies of the network.\<close>

definition w_engine :: "fetch_reply list \<Rightarrow> task world" where
  "w_engine replies =
     \<lparr>agents = [], tasks = [], db_faults = [], cuids = [], net = replies, trace = []\<rparr>"

text \<open>The requests among the effects.\<close>

fun is_fetch :: "event \<Rightarrow> bool" where
  "is_fetch (EvFetch url body) = True"
| "is_fetch _ = False"

definition fetches :: "event list \<Rightarrow> event list" where
  "fetches evs = filter is_fetch evs"

text \<open>
  The effects of \<^verbatim>\<open>if (dbTask.callback) await fireCallback(...)\<close>: nothing for a
  callback that is null or empty, and otherwise the request, then the log of its error
  if it failed.
\<close>

definition logged :: "js_error + json \<Rightarrow> event list" where
  "logged outcome = (case outcome of Inl error \<Rightarrow> [EvLog error] | Inr data \<Rightarrow> [])"

definition posted :: "string option \<Rightarrow> json \<Rightarrow> fetch_reply \<Rightarrow> event list" where
  "posted callback taskData reply =
    (case callback of
       None \<Rightarrow> []
     | Some url \<Rightarrow>
         if url = [] then []
         else EvFetch url (stringify taskData)
                # logged (reply_outcome ''Failed to make callback call'' reply))"

text \<open>Two worlds with the same table and the same database faults: they differ in the network at most.\<close>

definition sim :: "'r world \<Rightarrow> 'r world \<Rightarrow> bool" where
  "sim w v = (tasks w = tasks v \<and> db_faults w = db_faults v)"

text \<open>
  A table that holds the running Task t1 with a given callback, and the Task that a
  delivery of \<open>delivery1\<close> makes of it.
\<close>

definition w_hook :: "string option \<Rightarrow> fetch_reply list \<Rightarrow> task world" where
  "w_hook callback replies =
     \<lparr>agents = [],
      tasks = [\<lparr>t_id = ''t1'', t_agentId = ''a1'', t_logs = ''[]'', t_output = ''{}'',
                t_status = ''running'', t_callback = callback\<rparr>],
      db_faults = [], cuids = [], net = replies, trace = []\<rparr>"

definition delivered1 :: "string option \<Rightarrow> json" where
  "delivered1 callback =
     JObj [(''id'', JStr ''t1''), (''agentId'', JStr ''a1''), (''logs'', JArr [JStr ''done'']),
           (''output'', JObj [(''answer'', JNum 42)]), (''status'', JStr ''complete''),
           (''callback'', case callback of None \<Rightarrow> JNull | Some u \<Rightarrow> JStr u)]"

text \<open>
  The value under the key \<open>k\<close> after the loop of part_007, lines 26 to 31, has assigned
  the properties of the input to the stored variables.
\<close>

definition seed_lookup ::
  "(string \<times> json) list \<Rightarrow> (string \<times> json) list \<Rightarrow> string \<Rightarrow> json option" where
  "seed_lookup variables input k =
    (if k = ''__proto__'' \<and> map_of variables k = None then None
     else case map_of input k of Some v \<Rightarrow> Some v | None \<Rightarrow> map_of variables k)"

text \<open>
  A world with one agent and an engine that answers the first request with a running
  Task; two bodies for the run handler; the Task of that answer.
\<close>

definition w_agent :: "task world" where
  "w_agent =
     \<lparr>agents = [\<lparr>a_id = ''a1'', a_name = ''greeter'', a_description = None,
                 a_variables = stringify (JObj [(''topic'', JStr ''cats''), (''tone'', JStr ''dry'')]),
                 a_workflow = stringify (JArr [])\<rparr>],
      tasks = [], db_faults = [], cuids = [''c1''],
      net = [Reply 200 (stringify (JObj [(''id'', JStr ''t9''), (''logs'', JArr [JStr ''started'']),
                                          (''output'', JObj [(''answer'', JNum (- 42))]),
                                          (''status'', JStr ''running'')]))],
      trace = []\<rparr>"

definition run_proto :: json where
  "run_proto = JObj [(''input'', JObj [(''__proto__'', JStr ''x''), (''topic'', JStr ''dogs'')])]"

definition run_body :: json where
  "run_body = JObj [(''input'', JObj [(''topic'', JStr ''dogs'')])]"

definition engine_task :: json where
  "engine_task = JObj [(''id'', JStr ''t9''), (''logs'', JArr [JStr ''started'']),
                       (''output'', JObj [(''answer'', JNum (- 42))]), (''status'', JStr ''running'')]"

text \<open>
  What a delivery with the body \<open>b\<close> makes of a stored Task: the Task with the delivered
  id gets the stringified logs and output of the body, each only if the body has it, and
  every other Task, like every other column, stays.
\<close>

definition delivered :: "json \<Rightarrow> task \<Rightarrow> task" where
  "delivered b r =
    (if get_prop b ''id'' = Some (JStr (t_id r))
     then r\<lparr>t_logs := (case get_prop b ''logs'' of None \<Rightarrow> t_logs r | Some lg \<Rightarrow> stringify lg),
            t_output := (case get_prop b ''output'' of None \<Rightarrow> t_output r | Some out \<Rightarrow> stringify out)\<rparr>
     else r)"



text \<open>An \<^verbatim>\<open>onError\<close> that throws what it is given.\<close>

definition rethrow :: "js_error \<Rightarrow> js_error option" where
  "rethrow error = Some error"

subsection \<open>\<^verbatim>\<open>JSON.parse\<close> reads back what \<^verbatim>\<open>JSON.stringify\<close> wrote\<close>

lemma of_char_digit_char: "n < 10 \<Longrightarrow> (of_char (digit_char n) :: nat) = 48 + n"
  by (simp add: digit_char_def)

lemma is_digit_digit_char: "n < 10 \<Longrightarrow> is_digit (digit_char n)"
  by (simp add: is_digit_def of_char_digit_char)

lemma digit_val_digit_char: "n < 10 \<Longrightarrow> digit_val (digit_char n) = n"
  by (simp add: digit_val_def of_char_digit_char)

lemma show_nat_digits: "\<forall>c \<in> set (show_nat n). is_digit c"
proof (induction n rule: show_nat.induct)
  case (1 n)
  then show ?case
    by (subst show_nat.simps) (auto simp: is_digit_digit_char)
qed

lemma show_nat_nonempty: "show_nat n \<noteq> []"
  by (subst show_nat.simps) simp

lemma read_nat_snoc: "read_nat (ds @ [c]) = 10 * read_nat ds + digit_val c"
  by (simp add: read_nat_def)

lemma read_show_nat: "read_nat (show_nat n) = n"
proof (induction n rule: show_nat.induct)
  case (1 n)
  show ?case
  proof (cases "n < 10")
    case True
    then show ?thesis
      by (subst show_nat.simps) (simp add: read_nat_def digit_val_digit_char)
  next
    case False
    then have "read_nat (show_nat (n div 10)) = n div 10" using 1 by simp
    with False show ?thesis
      by (subst show_nat.simps) (simp add: read_nat_snoc digit_val_digit_char)
  qed
qed

lemma hd_show_nat: "hd (show_nat n) = CHR ''0'' \<Longrightarrow> length (show_nat n) = 1"
proof (induction n rule: show_nat.induct)
  case (1 n)
  show ?case
  proof (cases "n < 10")
    case True
    then show ?thesis by (subst show_nat.simps) simp
  next
    case False
    then have s: "show_nat n = show_nat (n div 10) @ [digit_char (n mod 10)]"
      by (subst show_nat.simps) simp
    with show_nat_nonempty [of "n div 10"] "1.prems"
    have h: "hd (show_nat (n div 10)) = CHR ''0''" by simp
    then have l: "length (show_nat (n div 10)) = 1" using 1 False by simp
    then obtain d where d: "show_nat (n div 10) = [d]"
      by (cases "show_nat (n div 10)") auto
    with h have "show_nat (n div 10) = ''0''" by simp
    then have "read_nat (show_nat (n div 10)) = 0" by (simp add: read_nat_def digit_val_def)
    then have "n div 10 = 0" by (simp add: read_show_nat)
    with False show ?thesis by simp
  qed
qed

definition delim :: "string \<Rightarrow> bool" where
  "delim rest = (rest = [] \<or> hd rest \<in> {CHR '','', CHR '']'', CHR ''}''})"

lemma delim_not_digit: "delim rest \<Longrightarrow> rest \<noteq> [] \<Longrightarrow> \<not> is_digit (hd rest)"
  by (auto simp: delim_def is_digit_def)

lemma lex_number_show_nat:
  assumes "delim rest"
  shows "lex_number (show_nat n @ rest) = Some (n, rest)"
proof -
  have nd: "rest = [] \<or> \<not> is_digit (hd rest)" using assms delim_not_digit by blast
  have tw: "takeWhile is_digit (show_nat n @ rest) = show_nat n"
  proof (cases rest)
    case Nil
    then show ?thesis using show_nat_digits by (simp add: takeWhile_eq_all_conv)
  next
    case (Cons r rs)
    with nd have "\<not> is_digit r" by simp
    with Cons show ?thesis using show_nat_digits [of n]
      by (simp add: takeWhile_append2)
  qed
  have dw: "dropWhile is_digit (show_nat n @ rest) = rest"
  proof (cases rest)
    case Nil
    then show ?thesis using show_nat_digits by simp
  next
    case (Cons r rs)
    with nd have "\<not> is_digit r" by simp
    with Cons show ?thesis using show_nat_digits [of n]
      by (simp add: dropWhile_append2)
  qed
  have lz: "\<not> (hd (show_nat n) = CHR ''0'' \<and> length (show_nat n) > 1)"
    using hd_show_nat [of n] by auto
  have dl: "\<not> (rest \<noteq> [] \<and> hd rest \<in> {CHR ''.'', CHR ''e'', CHR ''E''})"
    using assms by (auto simp: delim_def)
  show ?thesis
    unfolding lex_number_def Let_def tw dw
    using show_nat_nonempty [of n] lz dl by (simp add: read_show_nat)
qed

lemma hex_val_hex_char: "m < 16 \<Longrightarrow> hex_val (hex_char m) = Some m"
  by (auto simp: hex_val_def hex_char_def Let_def)

lemma hex4_low:
  "n < 32 \<Longrightarrow> hex4 (CHR ''0'') (CHR ''0'') (hex_char (n div 16)) (hex_char (n mod 16)) = Some n"
proof -
  assume n: "n < 32"
  have z: "hex_val (CHR ''0'') = Some 0" by (simp add: hex_val_def)
  from n have a: "hex_val (hex_char (n div 16)) = Some (n div 16)"
    by (intro hex_val_hex_char) simp
  have b: "hex_val (hex_char (n mod 16)) = Some (n mod 16)"
    by (intro hex_val_hex_char) simp
  show ?thesis by (simp add: hex4_def z a b)
qed

lemma lex_string_quote_char:
  "lex_string (quote_char c @ xs) = cons_fst c (lex_string xs)"
proof (cases "c \<in> {CHR 0x08, CHR 0x09, CHR 0x0A, CHR 0x0C, CHR 0x0D, dquote, backslash}")
  case True
  then show ?thesis
    by (auto simp: quote_char_def unescape_def)
next
  case False
  note nf = this
  show ?thesis
  proof (cases "(of_char c :: nat) < 32")
    case True
    then have q: "quote_char c = [backslash, CHR ''u'', CHR ''0'', CHR ''0'',
             hex_char (of_char c div 16), hex_char (of_char c mod 16)]"
      using nf by (simp add: quote_char_def)
    have lt: "(of_char c :: nat) < 256" using True by simp
    show ?thesis
      unfolding q using hex4_low [OF True] lt by simp
  next
    case False
    then have q: "quote_char c = [c]" using nf by (simp add: quote_char_def)
    show ?thesis unfolding q using False nf by simp
  qed
qed

lemma lex_string_quoted:
  "lex_string (concat (map quote_char s) @ dquote # rest) = Some (s, rest)"
proof (induction s)
  case Nil
  then show ?case by simp
next
  case (Cons c s)
  have "lex_string (concat (map quote_char (c # s)) @ dquote # rest)
      = lex_string (quote_char c @ (concat (map quote_char s) @ dquote # rest))" by simp
  also have "\<dots> = cons_fst c (lex_string (concat (map quote_char s) @ dquote # rest))"
    by (rule lex_string_quote_char)
  also have "\<dots> = Some (c # s, rest)" using Cons by (simp add: cons_fst_def)
  finally show ?case .
qed

fun tokens_of :: "json \<Rightarrow> token list"
  and tokens_elems :: "json list \<Rightarrow> token list"
  and tokens_members :: "(string \<times> json) list \<Rightarrow> token list" where
  "tokens_of JNull = [TNull]"
| "tokens_of (JBool b) = [if b then TTrue else TFalse]"
| "tokens_of (JNum i) = [TNum i]"
| "tokens_of (JStr s) = [TStr s]"
| "tokens_of (JArr vs) = TLBrack # tokens_elems vs @ [TRBrack]"
| "tokens_of (JObj ps) = TLBrace # tokens_members ps @ [TRBrace]"
| "tokens_elems [] = []"
| "tokens_elems [v] = tokens_of v"
| "tokens_elems (v # w # vs) = tokens_of v @ TComma # tokens_elems (w # vs)"
| "tokens_members [] = []"
| "tokens_members [(k, v)] = TStr k # TColon # tokens_of v"
| "tokens_members ((k, v) # p # ps) =
     TStr k # TColon # tokens_of v @ TComma # tokens_members (p # ps)"

lemma delim_simps:
  "delim (CHR '','' # xs)" "delim (CHR '']'' # xs)" "delim (CHR ''}'' # xs)" "delim []"
  by (simp_all add: delim_def)

lemma lex_punct:
  "tokenize (CHR ''{'' # cs) = cons_tok TLBrace (tokenize cs)"
  "tokenize (CHR ''}'' # cs) = cons_tok TRBrace (tokenize cs)"
  "tokenize (CHR ''['' # cs) = cons_tok TLBrack (tokenize cs)"
  "tokenize (CHR '']'' # cs) = cons_tok TRBrack (tokenize cs)"
  "tokenize (CHR '':'' # cs) = cons_tok TColon (tokenize cs)"
  "tokenize (CHR '','' # cs) = cons_tok TComma (tokenize cs)"
  by (simp_all add: is_ws_def)

lemma lex_literals:
  "tokenize (''null'' @ cs) = cons_tok TNull (tokenize cs)"
  "tokenize (''true'' @ cs) = cons_tok TTrue (tokenize cs)"
  "tokenize (''false'' @ cs) = cons_tok TFalse (tokenize cs)"
  by (simp_all add: is_ws_def is_digit_def)

lemma lex_quoted: "tokenize (quote s @ rest) = cons_tok (TStr s) (tokenize rest)"
  by (simp add: quote_def is_ws_def lex_string_quoted)

lemma lex_digit_start:
  assumes "is_digit c"
  shows "tokenize (c # cs) =
    (case lex_number (c # cs) of None \<Rightarrow> None
     | Some (n, rest) \<Rightarrow> cons_tok (TNum (int n)) (tokenize rest))"
proof -
  have "\<not> is_ws c" "c \<noteq> CHR ''{''" "c \<noteq> CHR ''}''" "c \<noteq> CHR ''[''" "c \<noteq> CHR '']''"
    "c \<noteq> CHR '':''" "c \<noteq> CHR '',''" "c \<noteq> dquote" "c \<noteq> CHR ''-''"
    using assms by (auto simp: is_digit_def is_ws_def)
  then show ?thesis using assms by simp
qed

lemma lex_show_int:
  assumes "delim rest"
  shows "tokenize (show_int i @ rest) = cons_tok (TNum i) (tokenize rest)"
proof (cases "i < 0")
  case True
  then show ?thesis
    using lex_number_show_nat [OF assms, of "nat (- i)"]
    by (simp add: show_int_def is_ws_def)
next
  case False
  obtain c cs where sc: "show_nat (nat i) = c # cs"
    using show_nat_nonempty [of "nat i"] by (cases "show_nat (nat i)") auto
  then have d: "is_digit c" using show_nat_digits [of "nat i"] by simp
  have "tokenize (show_nat (nat i) @ rest) = cons_tok (TNum (int (nat i))) (tokenize rest)"
    using lex_number_show_nat [OF assms, of "nat i"] lex_digit_start [OF d, of "cs @ rest"]
    by (simp add: sc)
  with False show ?thesis by (simp add: show_int_def)
qed

definition cons_toks :: "token list \<Rightarrow> token list option \<Rightarrow> token list option" where
  "cons_toks ts r = map_option ((@) ts) r"

lemma cons_toks_simps:
  "cons_toks [] r = r"
  "cons_tok t (cons_toks ts r) = cons_toks (t # ts) r"
  "cons_toks ts (cons_tok t r) = cons_toks (ts @ [t]) r"
  "cons_toks ts (cons_toks us r) = cons_toks (ts @ us) r"
  "cons_tok t r = cons_toks [t] r"
  by (cases r; simp add: cons_toks_def cons_tok_def)+

lemma lex_stringify_all:
  "delim rest \<Longrightarrow> tokenize (stringify v @ rest) = cons_toks (tokens_of v) (tokenize rest)"
  "delim rest \<Longrightarrow> tokenize (stringify_elems vs @ rest) = cons_toks (tokens_elems vs) (tokenize rest)"
  "delim rest \<Longrightarrow> tokenize (stringify_members ps @ rest) = cons_toks (tokens_members ps) (tokenize rest)"
proof (induction v and vs and ps arbitrary: rest and rest and rest
    rule: stringify_stringify_elems_stringify_members.induct)
  case 1
  then show ?case using lex_literals(1) [of rest] by (simp add: cons_toks_simps(5))
next
  case (2 b)
  then show ?case using lex_literals(2,3) [of rest] by (simp add: cons_toks_simps(5))
next
  case (3 i)
  then show ?case by (simp add: lex_show_int cons_toks_simps(5))
next
  case (4 s)
  then show ?case by (simp add: lex_quoted cons_toks_simps(5))
next
  case (5 vs)
  have "tokenize (stringify (JArr vs) @ rest) = tokenize (CHR ''['' # (stringify_elems vs @ CHR '']'' # rest))"
    by simp
  also have "\<dots> = cons_tok TLBrack (cons_toks (tokens_elems vs) (cons_tok TRBrack (tokenize rest)))"
    by (simp only: lex_punct "5.IH" [OF delim_simps(2)])
  finally show ?case by (simp add: cons_toks_simps(2,3))
next
  case (6 ps)
  have "tokenize (stringify (JObj ps) @ rest) = tokenize (CHR ''{'' # (stringify_members ps @ CHR ''}'' # rest))"
    by simp
  also have "\<dots> = cons_tok TLBrace (cons_toks (tokens_members ps) (cons_tok TRBrace (tokenize rest)))"
    by (simp only: lex_punct "6.IH" [OF delim_simps(3)])
  finally show ?case by (simp add: cons_toks_simps(2,3))
next
  case 7
  then show ?case by (simp add: cons_toks_simps(1))
next
  case (8 v)
  then show ?case by simp
next
  case (9 v w vs)
  have "tokenize (stringify_elems (v # w # vs) @ rest)
      = tokenize (stringify v @ CHR '','' # (stringify_elems (w # vs) @ rest))" by simp
  also have "\<dots> = cons_toks (tokens_of v) (cons_tok TComma (cons_toks (tokens_elems (w # vs)) (tokenize rest)))"
    by (simp only: "9.IH"(1) [OF delim_simps(1)] lex_punct "9.IH"(2) [OF "9.prems"])
  finally show ?case by (simp add: cons_toks_simps(2,4))
next
  case 10
  then show ?case by (simp add: cons_toks_simps(1))
next
  case (11 k v)
  have "tokenize (stringify_members [(k, v)] @ rest) = tokenize (quote k @ CHR '':'' # (stringify v @ rest))"
    by simp
  also have "\<dots> = cons_tok (TStr k) (cons_tok TColon (cons_toks (tokens_of v) (tokenize rest)))"
    by (simp only: lex_quoted lex_punct "11.IH" [OF "11.prems"])
  finally show ?case by (simp add: cons_toks_simps(2))
next
  case (12 k v p ps)
  have "tokenize (stringify_members ((k, v) # p # ps) @ rest)
      = tokenize (quote k @ CHR '':'' # (stringify v @ CHR '','' # (stringify_members (p # ps) @ rest)))"
    by simp
  also have "\<dots> = cons_tok (TStr k) (cons_tok TColon (cons_toks (tokens_of v)
        (cons_tok TComma (cons_toks (tokens_members (p # ps)) (tokenize rest)))))"
    by (simp only: lex_quoted lex_punct "12.IH"(1) [OF delim_simps(1)] "12.IH"(2) [OF "12.prems"])
  finally show ?case by (simp add: cons_toks_simps(2,4))
qed

fun canon :: "json \<Rightarrow> json"
  and canon_elems :: "json list \<Rightarrow> json list"
  and canon_members :: "(string \<times> json) list \<Rightarrow> (string \<times> json) list" where
  "canon JNull = JNull"
| "canon (JBool b) = JBool b"
| "canon (JNum i) = JNum i"
| "canon (JStr s) = JStr s"
| "canon (JArr vs) = JArr (canon_elems vs)"
| "canon (JObj ps) = make_obj (canon_members ps)"
| "canon_elems [] = []"
| "canon_elems (v # vs) = canon v # canon_elems vs"
| "canon_members [] = []"
| "canon_members ((k, v) # ps) = (k, canon v) # canon_members ps"

lemma steps_append:
  "steps (xs @ ys) cfg = (case steps xs cfg of None \<Rightarrow> None | Some c \<Rightarrow> steps ys c)"
  by (induction xs arbitrary: cfg) (auto split: option.splits)

definition value_mode :: "mode \<Rightarrow> bool" where
  "value_mode m = (m = MVal \<or> m = MFirstElem)"

definition key_mode :: "mode \<Rightarrow> bool" where
  "key_mode m = (m = MKey \<or> m = MFirstKey)"

lemma step_scalar:
  assumes "value_mode m"
  shows "step TNull (st, m) = Some (push_value JNull st)"
    "step TTrue (st, m) = Some (push_value (JBool True) st)"
    "step TFalse (st, m) = Some (push_value (JBool False) st)"
    "step (TNum i) (st, m) = Some (push_value (JNum i) st)"
    "step (TStr s) (st, m) = Some (push_value (JStr s) st)"
    "step TLBrack (st, m) = Some (FArr [] # st, MFirstElem)"
    "step TLBrace (st, m) = Some (FObj [] [] # st, MFirstKey)"
  using assms by (auto simp: value_mode_def)

lemma step_key:
  assumes "key_mode m"
  shows "step (TStr k) (FObj acc k0 # st, m) = Some (FObj acc k # st, MColon)"
  using assms by (auto simp: key_mode_def)

lemma steps_tokens_all:
  "value_mode m \<Longrightarrow> steps (tokens_of v @ ts) (st, m) = steps ts (push_value (canon v) st)"
  "vs \<noteq> [] \<Longrightarrow> value_mode m \<Longrightarrow>
     steps (tokens_elems vs @ ts) (FArr acc # st, m)
       = steps ts (FArr (rev (canon_elems vs) @ acc) # st, MSep)"
  "ps \<noteq> [] \<Longrightarrow> key_mode m \<Longrightarrow>
     steps (tokens_members ps @ ts) (FObj macc k0 # st, m)
       = steps ts (FObj (rev (canon_members ps) @ macc) (fst (last ps)) # st, MSep)"
proof (induction v and vs and ps arbitrary: m ts st and m ts st acc and m ts st macc k0
    rule: tokens_of_tokens_elems_tokens_members.induct)
  case 1
  then show ?case by (simp add: step_scalar)
next
  case (2 b)
  then show ?case by (simp add: step_scalar)
next
  case (3 i)
  then show ?case by (simp add: step_scalar)
next
  case (4 s)
  then show ?case by (simp add: step_scalar)
next
  case (5 vs)
  show ?case
  proof (cases vs)
    case Nil
    then show ?thesis using "5.prems" by (simp add: step_scalar)
  next
    case (Cons a list)
    then have ne: "vs \<noteq> []" by simp
    have vm: "value_mode MFirstElem" by (simp add: value_mode_def)
    have "steps (tokens_of (JArr vs) @ ts) (st, m)
        = steps (tokens_elems vs @ TRBrack # ts) (FArr [] # st, MFirstElem)"
      using "5.prems" by (simp add: step_scalar)
    also have "\<dots> = steps (TRBrack # ts) (FArr (rev (canon_elems vs) @ []) # st, MSep)"
      by (rule "5.IH" [OF ne vm])
    finally show ?thesis by simp
  qed
next
  case (6 ps)
  show ?case
  proof (cases ps)
    case Nil
    then show ?thesis using "6.prems" by (simp add: step_scalar make_obj_def)
  next
    case (Cons a list)
    then have ne: "ps \<noteq> []" by simp
    have km: "key_mode MFirstKey" by (simp add: key_mode_def)
    have "steps (tokens_of (JObj ps) @ ts) (st, m)
        = steps (tokens_members ps @ TRBrace # ts) (FObj [] [] # st, MFirstKey)"
      using "6.prems" by (simp add: step_scalar)
    also have "\<dots> = steps (TRBrace # ts)
        (FObj (rev (canon_members ps) @ []) (fst (last ps)) # st, MSep)"
      by (rule "6.IH" [OF ne km])
    finally show ?thesis by simp
  qed
next
  case 7
  then show ?case by simp
next
  case (8 v)
  then show ?case by simp
next
  case (9 v w vs)
  have vm: "value_mode MVal" by (simp add: value_mode_def)
  have "steps (tokens_elems (v # w # vs) @ ts) (FArr acc # st, m)
      = steps (tokens_of v @ (TComma # tokens_elems (w # vs) @ ts)) (FArr acc # st, m)"
    by simp
  also have "\<dots> = steps (TComma # tokens_elems (w # vs) @ ts) (FArr (canon v # acc) # st, MSep)"
    using "9.IH"(1) [OF "9.prems"(2)] by simp
  also have "\<dots> = steps (tokens_elems (w # vs) @ ts) (FArr (canon v # acc) # st, MVal)"
    by simp
  also have "\<dots> = steps ts (FArr (rev (canon_elems (w # vs)) @ canon v # acc) # st, MSep)"
    by (rule "9.IH"(2) [OF _ vm]) simp
  finally show ?case by simp
next
  case 10
  then show ?case by simp
next
  case (11 k v)
  have vm: "value_mode MVal" by (simp add: value_mode_def)
  have "steps (tokens_members [(k, v)] @ ts) (FObj macc k0 # st, m)
      = steps (tokens_of v @ ts) (FObj macc k # st, MVal)"
    using "11.prems" by (simp add: step_key)
  also have "\<dots> = steps ts (push_value (canon v) (FObj macc k # st))"
    by (rule "11.IH" [OF vm])
  finally show ?case by simp
next
  case (12 k v p ps)
  have vm: "value_mode MVal" by (simp add: value_mode_def)
  have km: "key_mode MKey" by (simp add: key_mode_def)
  have "steps (tokens_members ((k, v) # p # ps) @ ts) (FObj macc k0 # st, m)
      = steps (tokens_of v @ (TComma # tokens_members (p # ps) @ ts)) (FObj macc k # st, MVal)"
    using "12.prems" by (simp add: step_key)
  also have "\<dots> = steps (TComma # tokens_members (p # ps) @ ts)
        (push_value (canon v) (FObj macc k # st))"
    by (rule "12.IH"(1) [OF vm])
  also have "\<dots> = steps (tokens_members (p # ps) @ ts) (FObj ((k, canon v) # macc) k # st, MKey)"
    by simp
  also have "\<dots> = steps ts (FObj (rev (canon_members (p # ps)) @ (k, canon v) # macc)
        (fst (last (p # ps))) # st, MSep)"
    by (rule "12.IH"(2) [OF _ km]) simp
  finally show ?case by simp
qed

theorem parse_stringify_canon: "parse (stringify v) = Some (canon v)"
proof -
  have "tokenize (stringify v @ []) = cons_toks (tokens_of v) (tokenize [])"
    by (rule lex_stringify_all(1)) (simp add: delim_def)
  then have l: "tokenize (stringify v) = Some (tokens_of v)" by (simp add: cons_toks_def)
  have "steps (tokens_of v @ []) ([], MVal) = steps [] (push_value (canon v) [])"
    by (rule steps_tokens_all(1)) (simp add: value_mode_def)
  then have "steps (tokens_of v) ([], MVal) = Some ([], MDone (canon v))" by simp
  with l show ?thesis by (simp add: parse_def)
qed

lemma set_prop_fresh: "k \<notin> fst ` set ps \<Longrightarrow> set_prop ps k v = ps @ [(k, v)]"
  by (induction ps) auto

lemma foldl_set_prop_distinct:
  "distinct (map fst (acc @ ms)) \<Longrightarrow>
     foldl (\<lambda>acc (k, v). set_prop acc k v) acc ms = acc @ ms"
proof (induction ms arbitrary: acc)
  case Nil
  then show ?case by simp
next
  case (Cons m ms)
  obtain k v where m: "m = (k, v)" by (cases m)
  from Cons.prems m have fresh: "k \<notin> fst ` set acc" by auto
  from Cons.prems m have d: "distinct (map fst ((acc @ [(k, v)]) @ ms))" by simp
  show ?case using Cons.IH [OF d] by (simp add: m set_prop_fresh [OF fresh])
qed

lemma make_obj_distinct: "distinct (map fst ms) \<Longrightarrow> make_obj ms = JObj ms"
  using foldl_set_prop_distinct [of "[]" ms] by (simp add: make_obj_def)

lemma map_fst_canon_members: "map fst (canon_members ps) = map fst ps"
  by (induction ps) auto

lemma canon_wf_all:
  "wf_json v \<Longrightarrow> canon v = v"
  "wf_elems vs \<Longrightarrow> canon_elems vs = vs"
  "wf_members ps \<Longrightarrow> canon_members ps = ps"
proof (induction v and vs and ps rule: canon_canon_elems_canon_members.induct)
  case (6 ps)
  then show ?case by (simp add: make_obj_distinct)
qed simp_all

lemma parse_stringify: "wf_json v \<Longrightarrow> parse (stringify v) = Some v"
  by (simp add: parse_stringify_canon canon_wf_all(1))

lemma map_fst_set_prop:
  "map fst (set_prop ps k v) = (if k \<in> set (map fst ps) then map fst ps else map fst ps @ [k])"
  by (induction ps) (auto simp: rev_image_eqI)

lemma distinct_set_prop: "distinct (map fst ps) \<Longrightarrow> distinct (map fst (set_prop ps k v))"
  by (simp add: map_fst_set_prop)

lemma wf_members_iff: "wf_members ps \<longleftrightarrow> (\<forall>p \<in> set ps. wf_json (snd p))"
  by (induction ps) auto

lemma wf_elems_iff: "wf_elems vs \<longleftrightarrow> (\<forall>v \<in> set vs. wf_json v)"
  by (induction vs) auto

lemma wf_members_set_prop:
  "wf_members ps \<Longrightarrow> wf_json v \<Longrightarrow> wf_members (set_prop ps k v)"
  by (induction ps) auto

lemma wf_foldl_set_prop:
  "distinct (map fst acc) \<Longrightarrow> wf_members acc \<Longrightarrow> wf_members ms \<Longrightarrow>
     distinct (map fst (foldl (\<lambda>acc (k, v). set_prop acc k v) acc ms))
     \<and> wf_members (foldl (\<lambda>acc (k, v). set_prop acc k v) acc ms)"
proof (induction ms arbitrary: acc)
  case Nil
  then show ?case by simp
next
  case (Cons m ms)
  obtain k v where m: "m = (k, v)" by (cases m)
  with Cons.prems have "distinct (map fst (set_prop acc k v))" "wf_members (set_prop acc k v)"
    "wf_members ms"
    by (simp_all add: distinct_set_prop wf_members_set_prop)
  from Cons.IH [OF this] show ?case by (simp add: m)
qed

lemma wf_make_obj: "wf_members ms \<Longrightarrow> wf_json (make_obj ms)"
  using wf_foldl_set_prop [of "[]" ms] by (simp add: make_obj_def)

lemma wf_cfg_stack: "wf_cfg (st, m) \<Longrightarrow> list_all wf_frame st"
  by (cases m) auto

lemma wf_push_value: "list_all wf_frame st \<Longrightarrow> wf_json v \<Longrightarrow> wf_cfg (push_value v st)"
  by (induction v st rule: push_value.induct) auto

lemma wf_elems_rev: "wf_elems (rev vs) = wf_elems vs"
  by (auto simp: wf_elems_iff)

lemma wf_members_rev: "wf_members (rev vs) = wf_members vs"
  by (auto simp: wf_members_iff)

lemma wf_step:
  assumes "wf_cfg cfg" "step t cfg = Some cfg'"
  shows "wf_cfg cfg'"
proof -
  obtain st m where c: "cfg = (st, m)" by (cases cfg)
  have s: "list_all wf_frame st" using assms(1) c wf_cfg_stack by blast
  show ?thesis
  proof (cases m)
    case MVal
    with assms c s show ?thesis
      by (auto split: token.splits intro!: wf_push_value)
  next
    case MFirstElem
    with assms c s show ?thesis
      by (auto split: token.splits list.splits frame.splits intro!: wf_push_value)
  next
    case MFirstKey
    with assms c s show ?thesis
      by (auto split: token.splits list.splits frame.splits intro!: wf_push_value)
  next
    case MKey
    with assms c s show ?thesis
      by (auto split: token.splits list.splits frame.splits)
  next
    case MColon
    with assms c s show ?thesis by (auto split: if_splits)
  next
    case MSep
    with assms c s show ?thesis
      by (auto split: list.splits frame.splits if_splits
          intro!: wf_push_value wf_make_obj simp: wf_elems_rev wf_members_rev)
  next
    case (MDone v)
    with assms c show ?thesis by simp
  qed
qed

lemma wf_steps: "wf_cfg cfg \<Longrightarrow> steps ts cfg = Some cfg' \<Longrightarrow> wf_cfg cfg'"
proof (induction ts arbitrary: cfg)
  case Nil
  then show ?case by simp
next
  case (Cons t ts)
  then show ?case by (auto split: option.splits dest: wf_step)
qed

lemma parse_wf: "parse s = Some v \<Longrightarrow> wf_json v"
proof -
  assume a: "parse s = Some v"
  then obtain ts st where t: "tokenize s = Some ts" and r: "steps ts ([], MVal) = Some (st, MDone v)"
    by (auto simp: parse_def split: option.splits prod.splits mode.splits)
  have "wf_cfg ([], MVal)" by simp
  from wf_steps [OF this r] show ?thesis by simp
qed

lemma get_prop_wf: "wf_json b \<Longrightarrow> get_prop b k = Some v \<Longrightarrow> wf_json v"
proof (cases b)
  case (JObj ps)
  assume "wf_json b" "get_prop b k = Some v"
  with JObj have "wf_members ps" "(k, v) \<in> set ps" by (auto dest: map_of_SomeD)
  then show ?thesis by (auto simp: wf_members_iff)
qed simp_all

subsection \<open>Facts about the loop and the client\<close>

lemma trace_emit: "trace (emit e w) = trace w @ [e]"
  by (simp add: emit_def)

lemma tasks_emit: "tasks (emit e w) = tasks w"
  by (simp add: emit_def)


lemma retry_loop_result:
  "retry_loop n attempt w = (resp, w') \<Longrightarrow>
     resp = unable \<or> (\<exists>w1. attempt w1 = (Inr resp, w'))"
proof (induction n arbitrary: w)
  case 0
  then show ?case by simp
next
  case (Suc n)
  obtain r w1 where a: "attempt w = (r, w1)" by (cases "attempt w")
  show ?case
  proof (cases r)
    case (Inl e)
    with a Suc.prems
    have "retry_loop n attempt (emit (EvLog e) (emit (EvSnooze 2000) w1)) = (resp, w')"
      by simp
    then show ?thesis by (rule Suc.IH)
  next
    case (Inr x)
    with a Suc.prems show ?thesis by auto
  qed
qed

lemma retry_loop_trace:
  assumes one: "\<And>w. trace (snd (attempt w)) = trace w @ [q]"
  shows "\<exists>errs. length errs \<le> n
      \<and> trace (snd (retry_loop n attempt w)) = trace w @ retry_trace q errs (length errs < n)
      \<and> (length errs = n \<longrightarrow> fst (retry_loop n attempt w) = unable)
      \<and> (length errs < n \<longrightarrow> (\<exists>w1. attempt w1 = (Inr (fst (retry_loop n attempt w)),
                                                 snd (retry_loop n attempt w))))"
proof (induction n arbitrary: w)
  case 0
  show ?case by (rule exI [of _ "[]"]) (simp add: retry_trace_def)
next
  case (Suc n)
  obtain r w1 where a: "attempt w = (r, w1)" by (cases "attempt w")
  have t1: "trace w1 = trace w @ [q]" using one [of w] a by simp
  show ?case
  proof (cases r)
    case (Inr resp)
    show ?thesis
      by (rule exI [of _ "[]"]) (use a Inr t1 in \<open>auto simp: retry_trace_def\<close>)
  next
    case (Inl e)
    let ?w2 = "emit (EvLog e) (emit (EvSnooze 2000) w1)"
    have step: "retry_loop (Suc n) attempt w = retry_loop n attempt ?w2"
      using a Inl by simp
    from Suc.IH [of ?w2] obtain errs where
      l: "length errs \<le> n" and
      t: "trace (snd (retry_loop n attempt ?w2)) = trace ?w2 @ retry_trace q errs (length errs < n)" and
      u: "length errs = n \<longrightarrow> fst (retry_loop n attempt ?w2) = unable" and
      s: "length errs < n \<longrightarrow> (\<exists>w1. attempt w1 = (Inr (fst (retry_loop n attempt ?w2)),
                                                 snd (retry_loop n attempt ?w2)))"
      by blast
    have t2: "trace ?w2 = trace w @ [q, EvSnooze 2000, EvLog e]"
      by (simp add: trace_emit t1)
    show ?thesis
      by (rule exI [of _ "e # errs"]) (use l t u s t2 step in \<open>auto simp: retry_trace_def\<close>)
  qed
qed

lemma check_id_Some: "check_id x = Some i \<longleftrightarrow> x = Some (JStr i)"
  by (induction x rule: check_id.induct) auto

lemma check_string_Some:
  "check_string x = Some y \<longleftrightarrow> (x = None \<and> y = None) \<or> (\<exists>s. x = Some (JStr s) \<and> y = Some s)"
  by (induction x rule: check_string.induct) auto

lemma check_status_Some:
  "check_status x = Some y \<longleftrightarrow>
     (x = None \<and> y = None) \<or> (\<exists>s. x = Some (JStr s) \<and> s \<in> set Status \<and> y = Some s)"
  by (induction x rule: check_status.induct) auto

lemma required_Some: "required z = Some v \<longleftrightarrow> z = Some (Some v)"
  by (induction z rule: required.induct) auto

lemma destructure_Some: "destructure body = Some b \<longleftrightarrow> body = Some b \<and> b \<noteq> JNull"
  by (cases body; cases b; cases "the body") (auto simp: destructure_def split: json.splits)

lemma db_fault_fields:
  "tasks (snd (db_fault w)) = tasks w" "trace (snd (db_fault w)) = trace w"
  "agents (snd (db_fault w)) = agents w" "net (snd (db_fault w)) = net w"
  by (simp_all add: db_fault_def split: list.splits)

lemma upsert_refused:
  "prisma_task_upsert wid cid None cst clg cout ust ulg uout w
     = (Inl PrismaValidationError, emit (EvQuery ''task.upsert'') w)"
  by (simp add: prisma_task_upsert_def Let_def split: option.splits)

lemma upsert_attempt_refused:
  "upsert_attempt tid logs output w = (Inl PrismaValidationError, emit (EvQuery ''task.upsert'') w)"
  by (simp add: upsert_attempt_def upsert_refused)

lemma upsert_attempt_trace:
  "trace (snd (upsert_attempt tid logs output w)) = trace w @ [EvQuery ''task.upsert'']"
  by (simp add: upsert_attempt_refused trace_emit)

lemma upsert_attempt_tasks: "tasks (snd (upsert_attempt tid logs output w)) = tasks w"
  by (simp add: upsert_attempt_refused tasks_emit)

lemma find_None_iff_id: "find (\<lambda>r. f r = i) xs = None \<longleftrightarrow> i \<notin> f ` set xs"
  by (auto simp: find_None_iff)

lemma update_trace:
  "trace (snd (prisma_task_update wid ds dl dout w)) = trace w @ [EvQuery ''task.update'']"
proof -
  obtain down w1 where d: "db_fault (emit (EvQuery ''task.update'') w) = (down, w1)"
    by (cases "db_fault (emit (EvQuery ''task.update'') w)")
  then have "trace w1 = trace w @ [EvQuery ''task.update'']"
    using db_fault_fields(2) [of "emit (EvQuery ''task.update'') w"] by (simp add: trace_emit)
  with d show ?thesis
    by (simp add: prisma_task_update_def Let_def trace_emit split: option.splits)
qed

lemma update_Inr:
  assumes "prisma_task_update wid ds dl dout w = (Inr row, w1)"
  shows "\<exists>i st lg out r. wid = Some (JStr i) \<and> check_status ds = Some st
      \<and> check_string dl = Some lg \<and> check_string dout = Some out
      \<and> find (\<lambda>r. t_id r = i) (tasks w) = Some r
      \<and> row = r\<lparr>t_status := or_keep st (t_status r), t_logs := or_keep lg (t_logs r),
                 t_output := or_keep out (t_output r)\<rparr>
      \<and> tasks w1 = map (\<lambda>x. if t_id x = i then row else x) (tasks w)
      \<and> agents w1 = agents w \<and> net w1 = net w"
proof -
  obtain down w2 where d: "db_fault (emit (EvQuery ''task.update'') w) = (down, w2)"
    by (cases "db_fault (emit (EvQuery ''task.update'') w)")
  then have t: "tasks w2 = tasks w" "agents w2 = agents w" "net w2 = net w"
    using db_fault_fields(1,3,4) [of "emit (EvQuery ''task.update'') w"]
    by (simp_all add: emit_def)
  from assms d t show ?thesis
    by (auto simp: prisma_task_update_def Let_def check_id_Some
        split: option.splits if_splits)
qed

lemma update_Inl:
  assumes "prisma_task_update wid ds dl dout w = (Inl e, w1)"
  shows "tasks w1 = tasks w \<and> agents w1 = agents w \<and> net w1 = net w"
proof -
  obtain down w2 where d: "db_fault (emit (EvQuery ''task.update'') w) = (down, w2)"
    by (cases "db_fault (emit (EvQuery ''task.update'') w)")
  then have t: "tasks w2 = tasks w" "agents w2 = agents w" "net w2 = net w"
    using db_fault_fields(1,3,4) [of "emit (EvQuery ''task.update'') w"]
    by (simp_all add: emit_def)
  from assms d t show ?thesis
    by (auto simp: prisma_task_update_def Let_def emit_def split: option.splits if_splits)
qed

lemma update_attempt_trace:
  "trace (snd (update_attempt tid logs output w)) = trace w @ [EvQuery ''task.update'']"
proof -
  obtain r w1 where p: "prisma_task_update tid None (js_stringify logs) (js_stringify output) w = (r, w1)"
    by (cases "prisma_task_update tid None (js_stringify logs) (js_stringify output) w")
  then have "trace w1 = trace w @ [EvQuery ''task.update'']"
    using update_trace [of tid None "js_stringify logs" "js_stringify output" w] by simp
  with p show ?thesis
    by (simp add: update_attempt_def split: sum.splits option.splits)
qed

lemma update_attempt_200:
  "update_attempt tid logs output w = (Inr resp, w1) \<Longrightarrow> \<exists>j. resp = Response 200 j"
  by (auto simp: update_attempt_def split: prod.splits sum.splits option.splits)

lemma upsert_attempt_200:
  "upsert_attempt tid logs output w = (Inr resp, w1) \<Longrightarrow> \<exists>j. resp = Response 200 j"
  by (simp add: upsert_attempt_refused)

lemma attempts_failed:
  "length (filter (\<lambda>e. e = EvQuery q) (concat (map (\<lambda>e. [EvQuery q, EvSnooze 2000, EvLog e]) errs)))
     = length errs"
  by (induction errs) auto

lemma attempts_retry_trace:
  "attempts_made (EvQuery q) (retry_trace (EvQuery q) errs answered)
     = length errs + (if answered then 1 else 0)"
  by (simp add: attempts_made_def retry_trace_def attempts_failed)

lemma retry_loop_summary:
  assumes one: "\<And>w. trace (snd (attempt w)) = trace w @ [EvQuery q]"
      and ok200: "\<And>w resp w1. attempt w = (Inr resp, w1) \<Longrightarrow> \<exists>j. resp = Response 200 j"
  shows "\<exists>errs. length errs \<le> 5
      \<and> new_events w (snd (retry_loop 5 attempt w))
          = retry_trace (EvQuery q) errs (length errs < 5)
      \<and> attempts_made (EvQuery q) (new_events w (snd (retry_loop 5 attempt w))) \<le> 5
      \<and> (length errs = 5 \<longrightarrow> fst (retry_loop 5 attempt w) = unable)
      \<and> (length errs < 5 \<longrightarrow> (\<exists>j. fst (retry_loop 5 attempt w) = Response 200 j))"
proof -
  from retry_loop_trace [of attempt "EvQuery q" 5 w, OF one] obtain errs where
    l: "length errs \<le> 5" and
    t: "trace (snd (retry_loop 5 attempt w)) = trace w @ retry_trace (EvQuery q) errs (length errs < 5)" and
    u: "length errs = 5 \<longrightarrow> fst (retry_loop 5 attempt w) = unable" and
    s: "length errs < 5 \<longrightarrow> (\<exists>w1. attempt w1 = (Inr (fst (retry_loop 5 attempt w)),
                                                 snd (retry_loop 5 attempt w)))"
    by blast
  have n: "new_events w (snd (retry_loop 5 attempt w)) = retry_trace (EvQuery q) errs (length errs < 5)"
    by (simp add: new_events_def t)
  have a: "attempts_made (EvQuery q) (new_events w (snd (retry_loop 5 attempt w))) \<le> 5"
    unfolding n using l by (simp add: attempts_retry_trace)
  have s': "length errs < 5 \<longrightarrow> (\<exists>j. fst (retry_loop 5 attempt w) = Response 200 j)"
    using s ok200 by blast
  from l n a u s' show ?thesis by blast
qed


lemma parseable_member:
  "parseable_store ts \<Longrightarrow> find P ts = Some r \<Longrightarrow> parse (t_logs r) \<noteq> None \<and> parse (t_output r) \<noteq> None"
  by (auto simp: parseable_store_def list_all_iff find_Some_iff)

lemma check_string_stringify:
  "check_string (js_stringify x) = Some lg \<Longrightarrow> lg = map_option stringify x"
  by (cases x) (auto simp: js_stringify_def)

lemma parse_or_keep:
  "parse old \<noteq> None \<Longrightarrow> parse (or_keep (map_option stringify x) old) \<noteq> None"
  by (cases x) (auto simp: or_keep_def parse_stringify_canon)

lemma update_writes_parseable:
  assumes "parseable_store (tasks w)"
      and "prisma_task_update tid ds (js_stringify logs) (js_stringify output) w = (Inr row, w1)"
  shows "parse (t_logs row) \<noteq> None \<and> parse (t_output row) \<noteq> None"
proof -
  from update_Inr [OF assms(2)] obtain i st lg out r where
    c: "check_string (js_stringify logs) = Some lg" "check_string (js_stringify output) = Some out"
    and f: "find (\<lambda>r. t_id r = i) (tasks w) = Some r"
    and row: "row = r\<lparr>t_status := or_keep st (t_status r), t_logs := or_keep lg (t_logs r),
                 t_output := or_keep out (t_output r)\<rparr>"
    by blast
  from parseable_member [OF assms(1) f] have p: "parse (t_logs r) \<noteq> None" "parse (t_output r) \<noteq> None"
    by simp_all
  from c have "lg = map_option stringify logs" "out = map_option stringify output"
    by (simp_all add: check_string_stringify)
  with row p show ?thesis by (simp add: parse_or_keep)
qed


lemma next_reply_fields:
  "tasks (snd (next_reply w)) = tasks w" "trace (snd (next_reply w)) = trace w"
  "agents (snd (next_reply w)) = agents w"
  by (simp_all add: next_reply_def split: list.splits)

lemma post_json_tasks: "tasks (snd (post_json failure url payload onS onE w)) = tasks w"
proof -
  obtain res w1 where n: "next_reply (emit (EvFetch url (stringify payload)) w) = (res, w1)"
    by (cases "next_reply (emit (EvFetch url (stringify payload)) w)")
  then have "tasks w1 = tasks w"
    using next_reply_fields(1) [of "emit (EvFetch url (stringify payload)) w"]
    by (simp add: tasks_emit)
  with n show ?thesis
    by (simp add: post_json_def Let_def tasks_emit split: sum.splits option.splits)
qed

lemma retry_loop_invariant:
  assumes step: "\<And>w. P (tasks w) \<Longrightarrow> P (tasks (snd (attempt w)))"
      and start: "P (tasks w)"
  shows "P (tasks (snd (retry_loop n attempt w)))"
  using start
proof (induction n arbitrary: w)
  case 0
  then show ?case by simp
next
  case (Suc n)
  obtain r w1 where a: "attempt w = (r, w1)" by (cases "attempt w")
  with step [OF Suc.prems] have p: "P (tasks w1)" by simp
  show ?case
  proof (cases r)
    case (Inr resp)
    with a p show ?thesis by simp
  next
    case (Inl e)
    from p have "P (tasks (emit (EvLog e) (emit (EvSnooze 2000) w1)))" by (simp add: tasks_emit)
    from Suc.IH [OF this] a Inl show ?thesis by simp
  qed
qed

lemma status_member:
  "status_ok ts \<Longrightarrow> find P ts = Some r \<Longrightarrow> t_status r \<in> set Status"
  by (auto simp: status_ok_def list_all_iff find_Some_iff)

lemma status_or_keep:
  "check_status ds = Some st \<Longrightarrow> old \<in> set Status \<Longrightarrow> or_keep st old \<in> set Status"
  by (auto simp: check_status_Some or_keep_def)

lemma status_ok_map:
  "status_ok ts \<Longrightarrow> t_status row \<in> set Status \<Longrightarrow>
     status_ok (map (\<lambda>x. if t_id x = i then row else x) ts)"
  by (auto simp: status_ok_def list_all_iff)

lemma update_keeps_status:
  assumes "status_ok (tasks w)"
  shows "status_ok (tasks (snd (prisma_task_update tid ds dl dout w)))"
proof -
  obtain r w1 where p: "prisma_task_update tid ds dl dout w = (r, w1)"
    by (cases "prisma_task_update tid ds dl dout w")
  show ?thesis
  proof (cases r)
    case (Inl e)
    with update_Inl [OF p [unfolded Inl]] p assms show ?thesis by simp
  next
    case (Inr row)
    from update_Inr [OF p [unfolded Inr]] obtain i st lg out r0 where
      c: "check_status ds = Some st" and f: "find (\<lambda>r. t_id r = i) (tasks w) = Some r0"
      and row: "row = r0\<lparr>t_status := or_keep st (t_status r0), t_logs := or_keep lg (t_logs r0),
                 t_output := or_keep out (t_output r0)\<rparr>"
      and t: "tasks w1 = map (\<lambda>x. if t_id x = i then row else x) (tasks w)"
      by blast
    have "t_status row \<in> set Status"
      using status_or_keep [OF c status_member [OF assms f]] row by simp
    with t p assms show ?thesis by (simp add: status_ok_map)
  qed
qed

lemma update_attempt_tasks:
  "tasks (snd (update_attempt tid logs output w))
     = tasks (snd (prisma_task_update tid None (js_stringify logs) (js_stringify output) w))"
  by (simp add: update_attempt_def split: prod.splits sum.splits option.splits)

lemma notify_attempt_tasks:
  "tasks (snd (notify_attempt tid logs output status w))
     = tasks (snd (prisma_task_update tid status (js_stringify logs) (js_stringify output) w))"
proof -
  obtain r w1 where p: "prisma_task_update tid status (js_stringify logs) (js_stringify output) w = (r, w1)"
    by (cases "prisma_task_update tid status (js_stringify logs) (js_stringify output) w")
  have f: "tasks (snd (fireCallback url j None None w1)) = tasks w1" for url j
    by (simp add: fireCallback_def post_json_tasks)
  show ?thesis
    using p f
    by (auto simp: notify_attempt_def split: prod.splits sum.splits option.splits)
       (metis snd_conv)+
qed

lemma agent_findUnique_tasks: "tasks (snd (prisma_agent_findUnique i w)) = tasks w"
proof -
  obtain down w1 where d: "db_fault (emit (EvQuery ''agent.findUnique'') w) = (down, w1)"
    by (cases "db_fault (emit (EvQuery ''agent.findUnique'') w)")
  then have "tasks w1 = tasks w"
    using db_fault_fields(1) [of "emit (EvQuery ''agent.findUnique'') w"] by (simp add: tasks_emit)
  with d show ?thesis by (simp add: prisma_agent_findUnique_def Let_def)
qed

lemma next_cuid_tasks: "tasks (snd (next_cuid w)) = tasks w"
  by (simp add: next_cuid_def split: list.splits)

lemma create_Inr:
  assumes "prisma_task_create d_id d_agentId d_status d_logs d_output w = (Inr row, w1)"
  shows "\<exists>aid st lg out. d_agentId = Some (JStr aid) \<and> d_status = Some (JStr st)
      \<and> st \<in> set Status \<and> d_logs = Some (JStr lg) \<and> d_output = Some (JStr out)
      \<and> row = \<lparr>t_id = t_id row, t_agentId = aid, t_logs = lg, t_output = out,
                t_status = st, t_callback = None\<rparr>
      \<and> (d_id \<noteq> None \<longrightarrow> d_id = Some (JStr (t_id row)))
      \<and> find (\<lambda>r. t_id r = t_id row) (tasks w) = None
      \<and> tasks w1 = tasks w @ [row]"
proof -
  obtain down w2 where d: "db_fault (emit (EvQuery ''task.create'') w) = (down, w2)"
    by (cases "db_fault (emit (EvQuery ''task.create'') w)")
  then have t: "tasks w2 = tasks w"
    using db_fault_fields(1) [of "emit (EvQuery ''task.create'') w"] by (simp add: tasks_emit)
  obtain c w3 where n: "next_cuid w2 = (c, w3)" by (cases "next_cuid w2")
  then have t3: "tasks w3 = tasks w" using next_cuid_tasks [of w2] t by simp
  from assms d t n t3 show ?thesis
    by (auto simp: prisma_task_create_def Let_def check_string_Some check_status_Some required_Some
        split: option.splits if_splits)
qed

lemma create_Inl:
  assumes "prisma_task_create d_id d_agentId d_status d_logs d_output w = (Inl e, w1)"
  shows "tasks w1 = tasks w"
proof -
  obtain down w2 where d: "db_fault (emit (EvQuery ''task.create'') w) = (down, w2)"
    by (cases "db_fault (emit (EvQuery ''task.create'') w)")
  then have t: "tasks w2 = tasks w"
    using db_fault_fields(1) [of "emit (EvQuery ''task.create'') w"] by (simp add: tasks_emit)
  obtain c w3 where n: "next_cuid w2 = (c, w3)" by (cases "next_cuid w2")
  then have t3: "tasks w3 = tasks w" using next_cuid_tasks [of w2] t by simp
  from assms d t n t3 show ?thesis
    by (auto simp: prisma_task_create_def Let_def tasks_emit split: option.splits if_splits)
qed

lemma agent_findUnique_D:
  assumes "prisma_agent_findUnique i w = (r, w1)"
  shows "tasks w1 = tasks w \<and> agents w1 = agents w
       \<and> trace w1 = trace w @ [EvQuery ''agent.findUnique'']"
proof -
  obtain down w2 where d: "db_fault (emit (EvQuery ''agent.findUnique'') w) = (down, w2)"
    by (cases "db_fault (emit (EvQuery ''agent.findUnique'') w)")
  then have "tasks w2 = tasks w" "agents w2 = agents w" "trace w2 = trace w @ [EvQuery ''agent.findUnique'']"
    using db_fault_fields(1,2,3) [of "emit (EvQuery ''agent.findUnique'') w"]
    by (simp_all add: emit_def)
  with d assms show ?thesis
    by (auto simp: prisma_agent_findUnique_def Let_def split: if_splits)
qed

lemma post_json_RetData:
  assumes "post_json failure url payload None onE w = (Inr (RetData d), w1)"
  shows "\<exists>st text. ok st \<and> parse text = Some d"
proof -
  obtain res w2 where n: "next_reply (emit (EvFetch url (stringify payload)) w) = (res, w2)"
    by (cases "next_reply (emit (EvFetch url (stringify payload)) w)")
  from assms n show ?thesis
    by (auto simp: post_json_def Let_def call_back_def
        split: sum.splits option.splits fetch_reply.splits if_splits)
qed

lemma runAgent_D:
  assumes "runAgent E a None None w = (r, w1)"
  shows "tasks w1 = tasks w \<and> (\<forall>d. r = Inr (RetData d) \<longrightarrow> wf_json d)"
proof -
  have "tasks w1 = tasks w"
    using post_json_tasks [of "''Failed to start agent task''" "E @ ''/api/task''" a None None w] assms
    by (simp add: runAgent_def)
  moreover have "wf_json d" if "r = Inr (RetData d)" for d
    using post_json_RetData [of "''Failed to start agent task''" "E @ ''/api/task''" a None w d w1] assms that
    by (auto simp: runAgent_def dest: parse_wf)
  ultimately show ?thesis by blast
qed

lemma run_handler_201:
  assumes "run_handler E aid body w = (Inr (Response 201 response), w')"
  shows "\<exists>row. tasks w' = tasks w @ [row]
      \<and> find (\<lambda>r. t_id r = t_id row) (tasks w) = None
      \<and> wf_json response
      \<and> (get_prop response ''id'' \<noteq> None \<longrightarrow> get_prop response ''id'' = Some (JStr (t_id row)))
      \<and> js_stringify (get_prop response ''logs'') = Some (JStr (t_logs row))
      \<and> js_stringify (get_prop response ''output'') = Some (JStr (t_output row))
      \<and> get_prop response ''status'' = Some (JStr (t_status row))
      \<and> t_status row \<in> set Status
      \<and> t_agentId row = aid \<and> t_callback row = None"
proof -
  from assms obtain b w1 agent vars wfl seeded w2 r row where
    f: "prisma_agent_findUnique aid w = (Inr (Some agent), w1)" and
    ra: "runAgent E (workflowAgent agent seeded wfl) None None w1 = (Inr (RetData response), w2)" and
    d: "destructure (Some response) = Some r" and
    c: "prisma_task_create (get_prop r ''id'') (Some (JStr (a_id agent))) (get_prop r ''status'')
            (js_stringify (get_prop r ''logs'')) (js_stringify (get_prop r ''output'')) w2 = (Inr row, w')"
    by (auto simp: run_handler_def split: option.splits prod.splits sum.splits js_ret.splits)
  from d have r: "r = response" by (simp add: destructure_Some)
  from agent_findUnique_D [OF f] have t1: "tasks w1 = tasks w" by simp
  from runAgent_D [OF ra] have t2: "tasks w2 = tasks w1" and wf: "wf_json response" by simp_all
  have aid: "a_id agent = aid"
    using f by (auto simp: prisma_agent_findUnique_def Let_def find_Some_iff
        split: prod.splits if_splits)
  from create_Inr [OF c] obtain a st lg out where
    e: "Some (JStr (a_id agent)) = Some (JStr a)" "get_prop r ''status'' = Some (JStr st)"
      "st \<in> set Status" "js_stringify (get_prop r ''logs'') = Some (JStr lg)"
      "js_stringify (get_prop r ''output'') = Some (JStr out)"
      "row = \<lparr>t_id = t_id row, t_agentId = a, t_logs = lg, t_output = out,
                t_status = st, t_callback = None\<rparr>"
      "get_prop r ''id'' \<noteq> None \<longrightarrow> get_prop r ''id'' = Some (JStr (t_id row))"
      "find (\<lambda>r. t_id r = t_id row) (tasks w2) = None"
      "tasks w' = tasks w2 @ [row]"
    by blast
  have s: "t_agentId row = a" "t_logs row = lg" "t_output row = out" "t_status row = st"
    "t_callback row = None"
    by (subst e(6), simp)+
  show ?thesis
    using e(1-5,7-9) s t1 t2 wf aid unfolding r by auto
qed

lemma run_handler_other:
  assumes "run_handler E aid body w = (res, w')"
  shows "tasks w' = tasks w \<or> (\<exists>response. res = Inr (Response 201 response))"
proof -
  have a: "tasks w1 = tasks w" if "prisma_agent_findUnique aid w = (r, w1)" for r w1
    using agent_findUnique_D [OF that] by simp
  have b: "tasks w2 = tasks w1" if "runAgent E x None None w1 = (r, w2)" for x r w1 w2
    using runAgent_D [OF that] by simp
  have c: "tasks w3 = tasks w2"
    if "prisma_task_create i g st lg out w2 = (Inl e, w3)" for i g st lg out w2 e w3
    using create_Inl [OF that] .
  show ?thesis
    using assms
    by (auto simp: run_handler_def split: option.splits prod.splits sum.splits js_ret.splits
        dest!: a b c)
qed

lemma task_findUnique_D:
  assumes "prisma_task_findUnique i w = (r, w1)"
  shows "tasks w1 = tasks w
       \<and> (r = Inl PrismaUnavailable \<or> r = Inr (find (\<lambda>r. t_id r = i) (tasks w)))
       \<and> (fst (db_fault w) = False \<longrightarrow> r = Inr (find (\<lambda>r. t_id r = i) (tasks w)))"
proof -
  obtain down w2 where d: "db_fault (emit (EvQuery ''task.findUnique'') w) = (down, w2)"
    by (cases "db_fault (emit (EvQuery ''task.findUnique'') w)")
  then have "tasks w2 = tasks w"
    using db_fault_fields(1) [of "emit (EvQuery ''task.findUnique'') w"] by (simp add: emit_def)
  moreover have "down = fst (db_fault w)"
    using d by (auto simp: db_fault_def emit_def split: list.splits)
  ultimately show ?thesis using d assms
    by (auto simp: prisma_task_findUnique_def Let_def split: if_splits)
qed

lemma task_get_tasks: "tasks (snd (task_get_handler i w)) = tasks w"
proof -
  obtain r w1 where f: "prisma_task_findUnique i w = (r, w1)"
    by (cases "prisma_task_findUnique i w")
  from task_findUnique_D [OF f] have t: "tasks w1 = tasks w" by simp
  show ?thesis
  proof (cases r)
    case (Inl e)
    with f t show ?thesis by (simp add: task_get_handler_def tasks_emit)
  next
    case (Inr found)
    show ?thesis
    proof (cases found)
      case None
      with f t Inr show ?thesis by (simp add: task_get_handler_def)
    next
      case (Some row)
      with f t Inr show ?thesis
        by (cases "parse (t_logs row)"; cases "parse (t_output row)")
           (simp_all add: task_get_handler_def tasks_emit)
    qed
  qed
qed

lemma handler_via_loop:
  "destructure body = Some b \<Longrightarrow>
     tasks (snd (callback_update_handler body w))
       = tasks (snd (retry_loop 5 (update_attempt (get_prop b ''id'') (get_prop b ''logs'')
                                     (get_prop b ''output'')) w))"
  "destructure body = Some b \<Longrightarrow>
     tasks (snd (callback_notify_handler body w))
       = tasks (snd (retry_loop 5 (notify_attempt (get_prop b ''id'') (get_prop b ''logs'')
                                     (get_prop b ''output'') (get_prop b ''status'')) w))"
  "destructure body = None \<Longrightarrow> tasks (snd (callback_update_handler body w)) = tasks w"
  "destructure body = None \<Longrightarrow> tasks (snd (callback_notify_handler body w)) = tasks w"
  by (simp_all add: callback_update_handler_def callback_notify_handler_def Let_def
      split_beta)

lemma status_ok_snoc: "status_ok ts \<Longrightarrow> t_status row \<in> set Status \<Longrightarrow> status_ok (ts @ [row])"
  by (simp add: status_ok_def)

lemma run_handler_appends:
  assumes "run_handler E aid body w = (res, w')"
  shows "tasks w' = tasks w
       \<or> (\<exists>row lg out. tasks w' = tasks w @ [row] \<and> t_status row \<in> set Status
             \<and> t_logs row = stringify lg \<and> t_output row = stringify out)"
proof -
  from run_handler_other [OF assms] show ?thesis
  proof
    assume "tasks w' = tasks w"
    then show ?thesis by simp
  next
    assume "\<exists>response. res = Inr (Response 201 response)"
    then obtain response where res: "res = Inr (Response 201 response)" ..
    from assms res have "run_handler E aid body w = (Inr (Response 201 response), w')" by simp
    from run_handler_201 [OF this] obtain row where
      t: "tasks w' = tasks w @ [row]" and
      l: "js_stringify (get_prop response ''logs'') = Some (JStr (t_logs row))" and
      out: "js_stringify (get_prop response ''output'') = Some (JStr (t_output row))" and
      st: "t_status row \<in> set Status"
      by blast
    from l have "\<exists>lg. t_logs row = stringify lg"
      by (cases "get_prop response ''logs''") (auto simp: js_stringify_def intro: exI sym)
    moreover from out have "\<exists>ou. t_output row = stringify ou"
      by (cases "get_prop response ''output''") (auto simp: js_stringify_def intro: exI sym)
    ultimately show ?thesis using t st by blast
  qed
qed

lemma run_handler_keeps_status:
  assumes "status_ok (tasks w)"
  shows "status_ok (tasks (snd (run_handler E aid body w)))"
proof -
  obtain res w' where r: "run_handler E aid body w = (res, w')"
    by (cases "run_handler E aid body w")
  from run_handler_appends [OF r] have "status_ok (tasks w')"
    using assms by (auto simp: status_ok_def)
  with r show ?thesis by simp
qed

lemma retry_loop_numeral:
  "retry_loop (numeral k) attempt w =
    (case attempt w of
       (Inr resp, w1) \<Rightarrow> (resp, w1)
     | (Inl error, w1) \<Rightarrow>
         retry_loop (pred_numeral k) attempt (emit (EvLog error) (emit (EvSnooze 2000) w1)))"
  by (simp add: numeral_eq_Suc)

lemma retry_loop_1:
  "retry_loop 1 attempt w =
    (case attempt w of
       (Inr resp, w1) \<Rightarrow> (resp, w1)
     | (Inl error, w1) \<Rightarrow> (unable, emit (EvLog error) (emit (EvSnooze 2000) w1)))"
  by (simp split: prod.splits sum.splits)

lemma digit_chars:
  "digit_char 0 = CHR ''0''" "digit_char 1 = CHR ''1''" "digit_char 2 = CHR ''2''"
  "digit_char 3 = CHR ''3''" "digit_char 4 = CHR ''4''" "digit_char 5 = CHR ''5''"
  "digit_char 6 = CHR ''6''" "digit_char 7 = CHR ''7''" "digit_char 8 = CHR ''8''"
  "digit_char 9 = CHR ''9''"
  by code_simp+

lemmas handler_defs =
  callback_notify_handler_def callback_update_handler_def callback_upsert_handler_def
  notify_attempt_def update_attempt_def upsert_attempt_def
  prisma_task_update_def prisma_task_upsert_def prisma_task_create_def
  prisma_task_findUnique_def prisma_agent_findUnique_def
  run_handler_def task_get_handler_def runAgent_def fireCallback_def post_json_def
  destructure_def js_stringify_def js_not_def emit_def db_fault_def next_reply_def next_cuid_def
  or_keep_def unable_def task_json_def Status_def ok_def call_back_def
  workflowAgent_def Let_def retry_loop_numeral retry_loop_1

lemmas json_defs =
  parse_def quote_def quote_char_def is_ws_def is_digit_def lex_number_def cons_tok_def
  cons_fst_def unescape_def hex4_def hex_val_def make_obj_def show_int_def read_nat_def
  digit_val_def show_nat.simps digit_chars

lemma parseable_map:
  "parseable_store ts \<Longrightarrow> parse (t_logs row) \<noteq> None \<and> parse (t_output row) \<noteq> None \<Longrightarrow>
     parseable_store (map (\<lambda>x. if t_id x = i then row else x) ts)"
  by (auto simp: parseable_store_def list_all_iff)

lemma update_keeps_parseable:
  assumes "parseable_store (tasks w)"
  shows "parseable_store (tasks (snd (prisma_task_update tid ds (js_stringify logs) (js_stringify output) w)))"
proof -
  obtain r w1 where p: "prisma_task_update tid ds (js_stringify logs) (js_stringify output) w = (r, w1)"
    by (cases "prisma_task_update tid ds (js_stringify logs) (js_stringify output) w")
  show ?thesis
  proof (cases r)
    case (Inl e)
    with update_Inl [OF p [unfolded Inl]] p assms show ?thesis by simp
  next
    case (Inr row)
    from update_Inr [OF p [unfolded Inr]] obtain i where
      t: "tasks w1 = map (\<lambda>x. if t_id x = i then row else x) (tasks w)"
      by blast
    from update_writes_parseable [OF assms p [unfolded Inr]] t p assms
    show ?thesis by (simp add: parseable_map)
  qed
qed

lemma run_handler_keeps_parseable:
  assumes "parseable_store (tasks w)"
  shows "parseable_store (tasks (snd (run_handler E aid body w)))"
proof -
  obtain res w' where r: "run_handler E aid body w = (res, w')"
    by (cases "run_handler E aid body w")
  from run_handler_appends [OF r] have "parseable_store (tasks w')"
    using assms by (auto simp: parseable_store_def parse_stringify_canon)
  with r show ?thesis by simp
qed

lemma handlers_keep_parseable:
  assumes "parseable_store (tasks w)"
  shows "parseable_store (tasks (snd (callback_update_handler body w)))"
    "parseable_store (tasks (snd (callback_notify_handler body w)))"
    "parseable_store (tasks (snd (run_handler E aid body w)))"
proof -
  show "parseable_store (tasks (snd (callback_update_handler body w)))"
  proof (cases "destructure body")
    case None
    with assms show ?thesis by (simp add: handler_via_loop)
  next
    case (Some b)
    show ?thesis
      unfolding handler_via_loop(1) [OF Some]
      by (rule retry_loop_invariant [where P = parseable_store])
         (simp_all add: assms update_attempt_tasks update_keeps_parseable)
  qed
  show "parseable_store (tasks (snd (callback_notify_handler body w)))"
  proof (cases "destructure body")
    case None
    with assms show ?thesis by (simp add: handler_via_loop)
  next
    case (Some b)
    show ?thesis
      unfolding handler_via_loop(2) [OF Some]
      by (rule retry_loop_invariant [where P = parseable_store])
         (simp_all add: assms notify_attempt_tasks update_keeps_parseable)
  qed
  show "parseable_store (tasks (snd (run_handler E aid body w)))"
    by (rule run_handler_keeps_parseable [OF assms])
qed

lemma next_reply_emit: "fst (next_reply (emit e w)) = fst (next_reply w)"
  by (simp add: next_reply_def emit_def split: list.splits)

lemma fetches_simps:
  "fetches [] = []" "fetches (evs @ evs') = fetches evs @ fetches evs'"
  "fetches (EvFetch u b # evs) = EvFetch u b # fetches evs"
  "fetches (EvQuery q # evs) = fetches evs"
  "fetches (EvLog e # evs) = fetches evs"
  "fetches (EvSnooze n # evs) = fetches evs"
  by (simp_all add: fetches_def)

lemma fetches_logged: "fetches (logged outcome) = []"
  by (cases outcome) (simp_all add: logged_def fetches_simps)

lemma fetches_posted:
  "fetches (posted callback taskData reply) =
    (case callback of
       None \<Rightarrow> []
     | Some url \<Rightarrow> if url = [] then [] else [EvFetch url (stringify taskData)])"
  by (simp add: posted_def fetches_simps fetches_logged split: option.splits)

lemma post_json_plain:
  "\<exists>ret w1. post_json failure url payload None None w = (Inr ret, w1)
     \<and> tasks w1 = tasks w \<and> db_faults w1 = db_faults w
     \<and> trace w1 = trace w @ EvFetch url (stringify payload)
                      # logged (reply_outcome failure (fst (next_reply w)))"
proof -
  let ?w = "emit (EvFetch url (stringify payload)) w"
  obtain res w2 where n: "next_reply ?w = (res, w2)" by (cases "next_reply ?w")
  then have r: "fst (next_reply w) = res" using next_reply_emit [of _ w] by (metis fst_conv)
  from n have f: "tasks w2 = tasks w" "db_faults w2 = db_faults w"
    "trace w2 = trace w @ [EvFetch url (stringify payload)]"
    by (auto simp: next_reply_def emit_def split: list.splits)
  show ?thesis
    unfolding r using n f
    by (cases res)
       (auto simp: post_json_def Let_def call_back_def emit_def logged_def
          split: option.splits)
qed

lemma update_D:
  assumes "prisma_task_update wid ds dl dout w = (r, w1)"
  shows "db_faults w1 = tl (db_faults w) \<or> (db_faults w1 = db_faults w \<and> (\<exists>e. r = Inl e))"
    and "net w1 = net w"
proof -
  obtain down w2 where d: "db_fault (emit (EvQuery ''task.update'') w) = (down, w2)"
    by (cases "db_fault (emit (EvQuery ''task.update'') w)")
  then have t: "db_faults w2 = tl (db_faults w)" "net w2 = net w"
    by (auto simp: db_fault_def emit_def split: list.splits)
  from assms d t show "db_faults w1 = tl (db_faults w) \<or> (db_faults w1 = db_faults w \<and> (\<exists>e. r = Inl e))"
    by (auto simp: prisma_task_update_def Let_def emit_def split: option.splits if_splits)
  from assms d t show "net w1 = net w"
    by (auto simp: prisma_task_update_def Let_def emit_def split: option.splits if_splits)
qed

lemma notify_attempt_cases:
  assumes "notify_attempt tid logs output status w = (res, w1)"
  shows "(\<exists>e. res = Inl e \<and> trace w1 = trace w @ [EvQuery ''task.update''] \<and> net w1 = net w)
       \<or> (\<exists>row lg out w0.
             prisma_task_update tid status (js_stringify logs) (js_stringify output) w = (Inr row, w0)
             \<and> parse (t_logs row) = Some lg \<and> parse (t_output row) = Some out
             \<and> res = Inr (Response 200 (task_json row lg out))
             \<and> tasks w1 = tasks w0 \<and> db_faults w1 = db_faults w0
             \<and> trace w1 = trace w @ EvQuery ''task.update'' #
                  posted (t_callback row) (task_json row lg out) (fst (next_reply w)))"
proof -
  obtain r w0 where p: "prisma_task_update tid status (js_stringify logs) (js_stringify output) w = (r, w0)"
    by (cases "prisma_task_update tid status (js_stringify logs) (js_stringify output) w")
  have t0: "trace w0 = trace w @ [EvQuery ''task.update'']"
    using update_trace [of tid status "js_stringify logs" "js_stringify output" w] p by simp
  have n0: "net w0 = net w" using update_D(2) [OF p] .
  then have nr: "fst (next_reply w0) = fst (next_reply w)"
    by (simp add: next_reply_def split: list.splits)
  show ?thesis
  proof (cases r)
    case (Inl e)
    with p assms t0 n0 show ?thesis by (auto simp: notify_attempt_def)
  next
    case (Inr row)
    note row = this
    show ?thesis
    proof (cases "parse (t_logs row)")
      case None
      with p row assms t0 n0 show ?thesis by (auto simp: notify_attempt_def)
    next
      case (Some lg)
      note lg = this
      show ?thesis
      proof (cases "parse (t_output row)")
        case None
        with p row lg assms t0 n0 show ?thesis by (auto simp: notify_attempt_def)
      next
        case (Some out)
        note out = this
        let ?j = "task_json row lg out"
        show ?thesis
        proof (cases "t_callback row")
          case None
          with p row lg out assms t0 have "res = Inr (Response 200 ?j)" "w1 = w0"
            by (simp_all add: notify_attempt_def)
          with p row lg out None t0 show ?thesis by (simp add: posted_def)
        next
          case (Some url)
          show ?thesis
          proof (cases "url = []")
            case True
            with Some p row lg out assms t0 have "res = Inr (Response 200 ?j)" "w1 = w0"
              by (simp_all add: notify_attempt_def)
            with p row lg out Some True t0 show ?thesis by (simp add: posted_def)
          next
            case False
            from post_json_plain [of "''Failed to make callback call''" url ?j w0]
            obtain ret w2 where
              f: "fireCallback url ?j None None w0 = (Inr ret, w2)" and
              k: "tasks w2 = tasks w0" "db_faults w2 = db_faults w0" and
              t: "trace w2 = trace w0 @ EvFetch url (stringify ?j)
                     # logged (reply_outcome ''Failed to make callback call'' (fst (next_reply w0)))"
              unfolding fireCallback_def by blast
            from Some False p row lg out assms f have "res = Inr (Response 200 ?j)" "w1 = w2"
              by (simp_all add: notify_attempt_def)
            with p row lg out Some False t0 k t nr show ?thesis by (simp add: posted_def)
          qed
        qed
      qed
    qed
  qed
qed

lemma retry_loop_fetches:
  assumes fail: "\<And>w e w1. attempt w = (Inl e, w1) \<Longrightarrow>
                   \<exists>evs. trace w1 = trace w @ evs \<and> fetches evs = [] \<and> net w1 = net w"
      and run: "retry_loop n attempt w = (resp, w')"
  shows "(resp = unable \<and> (\<exists>evs. trace w' = trace w @ evs \<and> fetches evs = []))
       \<or> (\<exists>w1 evs. attempt w1 = (Inr resp, w') \<and> trace w1 = trace w @ evs \<and> fetches evs = []
             \<and> net w1 = net w)"
  using run
proof (induction n arbitrary: w)
  case 0
  then have "resp = unable \<and> trace w' = trace w @ [] \<and> fetches [] = []"
    by (simp add: fetches_simps)
  then show ?case by blast
next
  case (Suc n)
  obtain r w1 where a: "attempt w = (r, w1)" by (cases "attempt w")
  show ?case
  proof (cases r)
    case (Inr x)
    with a Suc.prems have "attempt w = (Inr resp, w')" by auto
    then have "attempt w = (Inr resp, w') \<and> trace w = trace w @ [] \<and> fetches [] = [] \<and> net w = net w"
      by (simp add: fetches_simps)
    then show ?thesis by blast
  next
    case (Inl e)
    let ?w2 = "emit (EvLog e) (emit (EvSnooze 2000) w1)"
    from fail [OF a [unfolded Inl]] obtain evs where
      e: "trace w1 = trace w @ evs" "fetches evs = []" "net w1 = net w" by blast
    have t2: "trace ?w2 = trace w @ (evs @ [EvSnooze 2000, EvLog e])" "net ?w2 = net w"
      using e by (simp_all add: emit_def)
    have f2: "fetches (evs @ [EvSnooze 2000, EvLog e]) = []"
      using e by (simp add: fetches_simps)
    from a Inl Suc.prems have "retry_loop n attempt ?w2 = (resp, w')" by simp
    from Suc.IH [OF this] show ?thesis
    proof
      assume "resp = unable \<and> (\<exists>evs. trace w' = trace ?w2 @ evs \<and> fetches evs = [])"
      then obtain evs' where u: "resp = unable" "trace w' = trace ?w2 @ evs'" "fetches evs' = []"
        by blast
      then have "trace w' = trace w @ ((evs @ [EvSnooze 2000, EvLog e]) @ evs')
          \<and> fetches ((evs @ [EvSnooze 2000, EvLog e]) @ evs') = []"
        using t2 f2 by (simp add: fetches_simps)
      with u(1) show ?thesis by blast
    next
      assume "\<exists>w1 evs. attempt w1 = (Inr resp, w') \<and> trace w1 = trace ?w2 @ evs
          \<and> fetches evs = [] \<and> net w1 = net ?w2"
      then obtain w3 evs' where s: "attempt w3 = (Inr resp, w')" "trace w3 = trace ?w2 @ evs'"
          "fetches evs' = []" "net w3 = net ?w2" by blast
      then have "trace w3 = trace w @ ((evs @ [EvSnooze 2000, EvLog e]) @ evs')
          \<and> fetches ((evs @ [EvSnooze 2000, EvLog e]) @ evs') = [] \<and> net w3 = net w"
        using t2 f2 by (simp add: fetches_simps)
      with s(1) show ?thesis by blast
    qed
  qed
qed

lemma notify_attempt_Inl:
  assumes "notify_attempt tid logs output status w = (Inl e, w1)"
  shows "\<exists>evs. trace w1 = trace w @ evs \<and> fetches evs = [] \<and> net w1 = net w"
proof -
  from notify_attempt_cases [OF assms]
  have "trace w1 = trace w @ [EvQuery ''task.update''] \<and> fetches [EvQuery ''task.update''] = []
      \<and> net w1 = net w"
    by (auto simp: fetches_simps)
  then show ?thesis by blast
qed

lemma notify_handler_posts:
  assumes "callback_notify_handler body w = (Inr resp, w')"
  shows "(resp = unable \<and> fetches (new_events w w') = [])
       \<or> (\<exists>row lg out. resp = Response 200 (task_json row lg out)
             \<and> row \<in> set (tasks w')
             \<and> parse (t_logs row) = Some lg \<and> parse (t_output row) = Some out
             \<and> (\<exists>evs. new_events w w' = evs @ EvQuery ''task.update'' #
                    posted (t_callback row) (task_json row lg out) (fst (next_reply w))
                  \<and> fetches evs = []))"
proof -
  from assms obtain b where b: "destructure body = Some b"
    by (auto simp: callback_notify_handler_def split: option.splits)
  let ?a = "notify_attempt (get_prop b ''id'') (get_prop b ''logs'') (get_prop b ''output'')
              (get_prop b ''status'')"
  from assms b have run: "retry_loop 5 ?a w = (resp, w')"
    by (auto simp: callback_notify_handler_def Let_def split: prod.splits)
  from retry_loop_fetches [of ?a 5 w resp w', OF notify_attempt_Inl run] show ?thesis
  proof
    assume "resp = unable \<and> (\<exists>evs. trace w' = trace w @ evs \<and> fetches evs = [])"
    then show ?thesis by (auto simp: new_events_def)
  next
    assume "\<exists>w1 evs. ?a w1 = (Inr resp, w') \<and> trace w1 = trace w @ evs \<and> fetches evs = []
        \<and> net w1 = net w"
    then obtain w1 evs where s: "?a w1 = (Inr resp, w')" "trace w1 = trace w @ evs"
      "fetches evs = []" "net w1 = net w" by blast
    from notify_attempt_cases [OF s(1)] obtain row lg out w0 where
      u: "prisma_task_update (get_prop b ''id'') (get_prop b ''status'')
            (js_stringify (get_prop b ''logs'')) (js_stringify (get_prop b ''output'')) w1 = (Inr row, w0)"
      and p: "parse (t_logs row) = Some lg" "parse (t_output row) = Some out"
      and r: "resp = Response 200 (task_json row lg out)"
      and k: "tasks w' = tasks w0"
      and t: "trace w' = trace w1 @ EvQuery ''task.update'' #
                  posted (t_callback row) (task_json row lg out) (fst (next_reply w1))"
      by auto
    from update_Inr [OF u] obtain i st lg0 out0 r0 where
      f: "find (\<lambda>r. t_id r = i) (tasks w1) = Some r0" and
      rw: "row = r0\<lparr>t_status := or_keep st (t_status r0), t_logs := or_keep lg0 (t_logs r0),
                 t_output := or_keep out0 (t_output r0)\<rparr>" and
      tw: "tasks w0 = map (\<lambda>x. if t_id x = i then row else x) (tasks w1)"
      by blast
    from f have "r0 \<in> set (tasks w1)" "t_id r0 = i" by (auto simp: find_Some_iff)
    then have m: "row \<in> set (tasks w')" unfolding k tw by force
    have nr: "fst (next_reply w1) = fst (next_reply w)"
      using s(4) by (simp add: next_reply_def split: list.splits)
    have "new_events w w' = evs @ EvQuery ''task.update'' #
                    posted (t_callback row) (task_json row lg out) (fst (next_reply w))"
      using t s(2) nr by (simp add: new_events_def)
    with r m p s(3) show ?thesis by blast
  qed
qed

lemma update_sim:
  assumes "sim w v"
  shows "fst (prisma_task_update a b c d w) = fst (prisma_task_update a b c d v)
       \<and> sim (snd (prisma_task_update a b c d w)) (snd (prisma_task_update a b c d v))"
  using assms
  by (auto simp: sim_def prisma_task_update_def Let_def db_fault_def emit_def
      split: option.splits list.splits)

lemma post_json_sim:
  "sim (snd (post_json failure url payload None None w)) w"
  using post_json_plain [of failure url payload w] by (auto simp: sim_def)

lemma post_json_Inr:
  "\<exists>ret. fst (post_json failure url payload None None w) = Inr ret"
  using post_json_plain [of failure url payload w] by auto

lemma sim_trans: "sim a b \<Longrightarrow> sim b c \<Longrightarrow> sim a c"
  by (simp add: sim_def)

lemma sim_sym: "sim a b \<Longrightarrow> sim b a"
  by (simp add: sim_def)

lemma notify_attempt_sim:
  assumes "sim w v"
  shows "fst (notify_attempt tid logs output status w) = fst (notify_attempt tid logs output status v)
       \<and> sim (snd (notify_attempt tid logs output status w))
              (snd (notify_attempt tid logs output status v))"
proof -
  let ?u = "\<lambda>w. prisma_task_update tid status (js_stringify logs) (js_stringify output) w"
  obtain r w1 where pw: "?u w = (r, w1)" by (cases "?u w")
  obtain r' v1 where pv: "?u v = (r', v1)" by (cases "?u v")
  from update_sim [OF assms, of tid status "js_stringify logs" "js_stringify output"] pw pv
  have e: "r' = r" and s1: "sim w1 v1" by simp_all
  show ?thesis
  proof (cases r)
    case (Inl e')
    with pw pv e s1 show ?thesis by (simp add: notify_attempt_def)
  next
    case (Inr row)
    let ?post = "\<lambda>url j w. fireCallback url j None None w"
    have f: "\<exists>ret. fst (?post url j x) = Inr ret" for url j and x :: "task world"
      unfolding fireCallback_def by (rule post_json_Inr)
    have g: "sim (snd (?post url j w1)) (snd (?post url j v1))" for url j
      unfolding fireCallback_def
      using post_json_sim [of _ url j w1] post_json_sim [of _ url j v1] s1
      by (meson sim_trans sim_sym)
    show ?thesis
    proof (cases "parse (t_logs row)")
      case None
      with pw pv e s1 Inr show ?thesis by (simp add: notify_attempt_def)
    next
      case (Some lg)
      note lg = this
      show ?thesis
      proof (cases "parse (t_output row)")
        case None
        with pw pv e s1 Inr lg show ?thesis by (simp add: notify_attempt_def)
      next
        case (Some out)
        note out = this
        show ?thesis
        proof (cases "t_callback row")
          case None
          with pw pv e s1 Inr lg out show ?thesis by (simp add: notify_attempt_def)
        next
          case (Some url)
          let ?j = "task_json row lg out"
          obtain a wa where a: "?post url ?j w1 = (a, wa)" by (cases "?post url ?j w1")
          obtain b vb where b: "?post url ?j v1 = (b, vb)" by (cases "?post url ?j v1")
          from f [of url ?j w1] a obtain ra where ra: "a = Inr ra" by auto
          from f [of url ?j v1] b obtain rb where rb: "b = Inr rb" by auto
          from g [of url ?j] a b have sab: "sim wa vb" by simp
          from pw pv e s1 Inr lg out Some a b ra rb sab show ?thesis
            by (simp add: notify_attempt_def)
        qed
      qed
    qed
  qed
qed

lemma retry_loop_sim:
  assumes step: "\<And>w v. sim w v \<Longrightarrow> fst (attempt w) = fst (attempt v) \<and> sim (snd (attempt w)) (snd (attempt v))"
      and start: "sim w v"
  shows "fst (retry_loop n attempt w) = fst (retry_loop n attempt v)
       \<and> sim (snd (retry_loop n attempt w)) (snd (retry_loop n attempt v))"
  using start
proof (induction n arbitrary: w v)
  case 0
  then show ?case by simp
next
  case (Suc n)
  obtain r w1 where a: "attempt w = (r, w1)" by (cases "attempt w")
  obtain r' v1 where b: "attempt v = (r', v1)" by (cases "attempt v")
  from step [OF Suc.prems] a b have e: "r' = r" and s: "sim w1 v1" by simp_all
  show ?case
  proof (cases r)
    case (Inr x)
    with a b e s show ?thesis by simp
  next
    case (Inl err)
    let ?n = "\<lambda>x. emit (EvLog err) (emit (EvSnooze 2000) x)"
    have "sim (?n w1) (?n v1)" using s by (simp add: sim_def emit_def)
    from Suc.IH [OF this] a b e Inl show ?thesis by simp
  qed
qed

lemma notify_handler_sim:
  assumes "sim w v"
  shows "fst (callback_notify_handler body w) = fst (callback_notify_handler body v)
       \<and> tasks (snd (callback_notify_handler body w)) = tasks (snd (callback_notify_handler body v))"
proof (cases "destructure body")
  case None
  with assms show ?thesis by (simp add: callback_notify_handler_def sim_def)
next
  case (Some b)
  let ?a = "notify_attempt (get_prop b ''id'') (get_prop b ''logs'') (get_prop b ''output'')
              (get_prop b ''status'')"
  from retry_loop_sim [of ?a w v 5, OF notify_attempt_sim assms]
  show ?thesis using Some
    by (simp add: callback_notify_handler_def Let_def split_beta sim_def)
qed

lemma update_handler_ids:
  "map t_id (tasks (snd (callback_update_handler body w))) = map t_id (tasks w)"
proof (cases "destructure body")
  case None
  then show ?thesis by (simp add: handler_via_loop)
next
  case (Some b)
  have u: "map t_id (tasks (snd (prisma_task_update a s l out v))) = map t_id (tasks v)" for a s l out v
  proof -
    obtain r v1 where p: "prisma_task_update a s l out v = (r, v1)"
      by (cases "prisma_task_update a s l out v")
    show ?thesis
    proof (cases r)
      case (Inl e)
      with update_Inl [OF p [unfolded Inl]] p show ?thesis by simp
    next
      case (Inr row)
      from update_Inr [OF p [unfolded Inr]] obtain i st lg ou r0 where
        f: "find (\<lambda>r. t_id r = i) (tasks v) = Some r0" and
        rw: "row = r0\<lparr>t_status := or_keep st (t_status r0), t_logs := or_keep lg (t_logs r0),
                 t_output := or_keep ou (t_output r0)\<rparr>" and
        tw: "tasks v1 = map (\<lambda>x. if t_id x = i then row else x) (tasks v)"
        by blast
      from f have "t_id r0 = i" by (auto simp: find_Some_iff)
      with rw have "t_id row = i" by simp
      then have "map t_id (map (\<lambda>x. if t_id x = i then row else x) (tasks v)) = map t_id (tasks v)"
        by (induction "tasks v") auto
      with tw p show ?thesis by simp
    qed
  qed
  show ?thesis
    unfolding handler_via_loop(1) [OF Some]
    by (rule retry_loop_invariant [where P = "\<lambda>ts. map t_id ts = map t_id (tasks w)"])
       (simp_all add: update_attempt_tasks u)
qed

lemma map_of_set_prop:
  "map_of (set_prop ps k v) k' = (if k' = k then Some v else map_of ps k')"
  by (induction ps) auto

lemma assign_all_object:
  assumes "distinct (map fst ins)"
  shows "\<exists>seed. assign_all (JObj vs) ins = Inr (JObj seed)
      \<and> (\<forall>k. map_of seed k = seed_lookup vs ins k)"
  using assms
proof (induction ins arbitrary: vs)
  case Nil
  then show ?case by (auto simp: seed_lookup_def)
next
  case (Cons p ins)
  obtain k v where p: "p = (k, v)" by (cases p)
  from Cons.prems p have d: "distinct (map fst ins)" and fresh: "map_of ins k = None"
    by (auto simp: map_of_eq_None_iff)
  show ?case
  proof (cases "k = ''__proto__'' \<and> map_of vs k = None")
    case True
    from Cons.IH [OF d, of vs] obtain seed where
      s: "assign_all (JObj vs) ins = Inr (JObj seed)" "\<forall>k. map_of seed k = seed_lookup vs ins k"
      by blast
    have "seed_lookup vs ins k' = seed_lookup vs ((k, v) # ins) k'" for k'
      using True by (auto simp: seed_lookup_def)
    with s True p show ?thesis by auto
  next
    case False
    from Cons.IH [OF d, of "set_prop vs k v"] obtain seed where
      s: "assign_all (JObj (set_prop vs k v)) ins = Inr (JObj seed)"
         "\<forall>k'. map_of seed k' = seed_lookup (set_prop vs k v) ins k'"
      by blast
    have "seed_lookup (set_prop vs k v) ins k' = seed_lookup vs ((k, v) # ins) k'" for k'
      using False fresh by (auto simp: seed_lookup_def map_of_set_prop split: option.splits)
    with s False p show ?thesis by auto
  qed
qed

lemma create_fetches:
  "fetches (trace (snd (prisma_task_create i g st lg out w))) = fetches (trace w)"
proof -
  obtain down w2 where d: "db_fault (emit (EvQuery ''task.create'') w) = (down, w2)"
    by (cases "db_fault (emit (EvQuery ''task.create'') w)")
  then have t: "trace w2 = trace w @ [EvQuery ''task.create'']"
    by (auto simp: db_fault_def emit_def split: list.splits)
  obtain c w3 where n: "next_cuid w2 = (c, w3)" by (cases "next_cuid w2")
  then have t3: "trace w3 = trace w2" by (auto simp: next_cuid_def split: list.splits)
  from d t n t3 show ?thesis
    by (auto simp: prisma_task_create_def Let_def fetches_simps trace_emit
        split: option.splits if_splits)
qed

lemma run_handler_seed:
  assumes body: "body = Some b" "wf_json b" "get_prop b ''input'' = Some (JObj ins)"
      and found: "prisma_agent_findUnique aid w = (Inr (Some agent), w1)"
      and vars: "parse (a_variables agent) = Some (JObj vs)"
      and flow: "parse (a_workflow agent) = Some wfl"
  shows "\<exists>seed. fetches (trace (snd (run_handler E aid body w))) =
           fetches (trace w) @ [EvFetch (E @ ''/api/task'') (stringify (workflowAgent agent (JObj seed) wfl))]
      \<and> (\<forall>k. map_of seed k = seed_lookup vs ins k)"
proof -
  from body(2,3) have "wf_json (JObj ins)" by (rule get_prop_wf)
  then have "distinct (map fst ins)" by simp
  from assign_all_object [OF this, of vs] obtain seed where
    s: "assign_all (JObj vs) ins = Inr (JObj seed)" "\<forall>k. map_of seed k = seed_lookup vs ins k"
    by blast
  let ?a = "workflowAgent agent (JObj seed) wfl"
  from post_json_plain [of "''Failed to start agent task''" "E @ ''/api/task''" ?a w1]
  obtain ret w2 where
    p: "runAgent E ?a None None w1 = (Inr ret, w2)"
       "fetches (trace w2) = fetches (trace w1) @ [EvFetch (E @ ''/api/task'') (stringify ?a)]"
    by (auto simp: runAgent_def fetches_simps fetches_logged)
  from agent_findUnique_D [OF found] have t1: "fetches (trace w1) = fetches (trace w)"
    by (simp add: fetches_simps)
  from body have b: "destructure body = Some b" by (cases b) (simp_all add: destructure_def)
  have "fetches (trace (snd (run_handler E aid body w))) = fetches (trace w2)"
  proof (cases ret)
    case (RetError e)
    with b found vars flow s(1) p(1) body(3) show ?thesis by (simp add: run_handler_def)
  next
    case (RetData d)
    show ?thesis
    proof (cases "destructure (Some d)")
      case None
      with RetData b found vars flow s(1) p(1) body(3) show ?thesis by (simp add: run_handler_def)
    next
      case (Some r)
      let ?c = "prisma_task_create (get_prop r ''id'') (Some (JStr (a_id agent))) (get_prop r ''status'')
            (js_stringify (get_prop r ''logs'')) (js_stringify (get_prop r ''output'')) w2"
      obtain res w3 where c: "?c = (res, w3)" by (cases ?c)
      from create_fetches [of "get_prop r ''id''" "Some (JStr (a_id agent))" "get_prop r ''status''"
          "js_stringify (get_prop r ''logs'')" "js_stringify (get_prop r ''output'')" w2] c
      have "fetches (trace w3) = fetches (trace w2)" by simp
      with Some RetData b found vars flow s(1) p(1) body(3) c show ?thesis
        by (cases res) (simp_all add: run_handler_def)
    qed
  qed
  with p(2) t1 s(2) show ?thesis by auto
qed

lemma find_append_new:
  "find P xs = None \<Longrightarrow> P x \<Longrightarrow> find P (xs @ [x]) = Some x"
  by (induction xs) (auto split: if_splits)

lemma js_stringify_D:
  "js_stringify v = Some (JStr s) \<Longrightarrow> \<exists>x. v = Some x \<and> s = stringify x"
  by (cases v) (auto simp: js_stringify_def)

lemma upsert_handler_via_loop:
  "destructure body = Some b \<Longrightarrow>
     callback_upsert_handler body w
       = (Inr (fst (retry_loop 5 (upsert_attempt (get_prop b ''id'') (get_prop b ''logs'')
                  (get_prop b ''output'')) w)),
          snd (retry_loop 5 (upsert_attempt (get_prop b ''id'') (get_prop b ''logs'')
                  (get_prop b ''output'')) w))"
  "destructure body = None \<Longrightarrow> callback_upsert_handler body w = (Inl TypeError, w)"
  by (simp_all add: callback_upsert_handler_def Let_def js_not_def split_beta)

lemma retry_loop_refused:
  assumes "\<And>w. attempt w = (Inl e, emit q w)"
  shows "retry_loop n attempt w
       = (unable, w\<lparr>trace := trace w @ concat (replicate n [q, EvSnooze 2000, EvLog e])\<rparr>)"
proof (induction n arbitrary: w)
  case 0
  show ?case by simp
next
  case (Suc n)
  have "retry_loop (Suc n) attempt w
      = retry_loop n attempt (emit (EvLog e) (emit (EvSnooze 2000) (emit q w)))"
    by (subst retry_loop.simps(2), subst assms) simp
  then show ?case by (simp add: Suc.IH emit_def)
qed

lemma upsert_handler_refused:
  assumes "destructure body = Some b"
  shows "callback_upsert_handler body w
       = (Inr unable,
          w\<lparr>trace := trace w @ concat (replicate 5
              [EvQuery ''task.upsert'', EvSnooze 2000, EvLog PrismaValidationError])\<rparr>)"
  unfolding upsert_handler_via_loop(1) [OF assms]
  by (simp add: retry_loop_refused [where e = PrismaValidationError and q = "EvQuery ''task.upsert''",
        OF upsert_attempt_refused])

lemma upsert_handler_tasks: "tasks (snd (callback_upsert_handler body w)) = tasks w"
  by (cases "destructure body") (simp_all add: upsert_handler_via_loop(2) upsert_handler_refused)




lemma delivered_other: "get_prop b ''id'' \<noteq> Some (JStr (t_id r)) \<Longrightarrow> delivered b r = r"
  by (simp add: delivered_def)

lemma map_delivered_unknown:
  "\<forall>r \<in> set ts. get_prop b ''id'' \<noteq> Some (JStr (t_id r)) \<Longrightarrow> map (delivered b) ts = ts"
  by (induction ts) (simp_all add: delivered_other)










lemma upsert_handler_keeps_parseable:
  "parseable_store (tasks w) \<Longrightarrow> parseable_store (tasks (snd (callback_upsert_handler body w)))"
  by (simp add: upsert_handler_tasks)

subsection \<open>C1: a repeated delivery never duplicates a Task\<close>




subsection \<open>C2: the retry loop is bounded and reports its failure\<close>

text \<open>
  C2. For every request whose body can be destructured, every world and every sequence of
  database faults, the update handler and the upsert handler return an HTTP answer. The
  effects they add to the trace are: for every failed attempt the query, a snooze of
  exactly 2000 milliseconds and the log of the error, then one more query if an attempt
  succeeded. There are at most five queries; after five failed attempts the answer is the
  status 500 with the message "Unable to update user data", and otherwise it is a 200.
  The delay is the same after every failure (there is no backoff), and it is also made
  after the fifth failure, before the 500.
\<close>

theorem retry_loop_bounded:
  assumes "destructure body = Some b"
  shows "bounded_retries ''task.update'' w (callback_update_handler body w)
       \<and> bounded_retries ''task.upsert'' w0 (callback_upsert_handler body w0)"
proof
  let ?a = "update_attempt (get_prop b ''id'') (get_prop b ''logs'') (get_prop b ''output'')"
  have h: "callback_update_handler body w = (Inr (fst (retry_loop 5 ?a w)), snd (retry_loop 5 ?a w))"
    using assms by (simp add: callback_update_handler_def Let_def split: prod.splits)
  from retry_loop_summary [of ?a "''task.update''" w, OF update_attempt_trace update_attempt_200]
  show "bounded_retries ''task.update'' w (callback_update_handler body w)"
    unfolding bounded_retries_def h by simp
next
  let ?a = "upsert_attempt (get_prop b ''id'') (get_prop b ''logs'') (get_prop b ''output'')"
  have h: "callback_upsert_handler body w0 = (Inr (fst (retry_loop 5 ?a w0)), snd (retry_loop 5 ?a w0))"
    using assms by (simp add: callback_upsert_handler_def Let_def js_not_def split: prod.splits)
  from retry_loop_summary [of ?a "''task.upsert''" w0, OF upsert_attempt_trace upsert_attempt_200]
  show "bounded_retries ''task.upsert'' w0 (callback_upsert_handler body w0)"
    unfolding bounded_retries_def h by simp
qed

theorem retry_loop_bounded_witness:
  "destructure (Some delivery1) = Some delivery1
   \<and> bounded_retries ''task.update'' w_gone (callback_update_handler (Some delivery1) w_gone)
   \<and> bounded_retries ''task.upsert'' w_run (callback_upsert_handler (Some delivery1) w_run)
   \<and> fst (callback_update_handler (Some delivery1) w_gone) = Inr unable
   \<and> trace (snd (callback_update_handler (Some delivery1) w_gone)) =
       [EvQuery ''task.update'', EvSnooze 2000, EvLog PrismaNotFound,
        EvQuery ''task.update'', EvSnooze 2000, EvLog PrismaNotFound,
        EvQuery ''task.update'', EvSnooze 2000, EvLog PrismaNotFound,
        EvQuery ''task.update'', EvSnooze 2000, EvLog PrismaNotFound,
        EvQuery ''task.update'', EvSnooze 2000, EvLog PrismaNotFound]"
proof -
  have d: "destructure (Some delivery1) = Some delivery1" by code_simp
  have r: "fst (callback_update_handler (Some delivery1) w_gone) = Inr unable" by code_simp
  have t: "trace (snd (callback_update_handler (Some delivery1) w_gone)) =
       [EvQuery ''task.update'', EvSnooze 2000, EvLog PrismaNotFound,
        EvQuery ''task.update'', EvSnooze 2000, EvLog PrismaNotFound,
        EvQuery ''task.update'', EvSnooze 2000, EvLog PrismaNotFound,
        EvQuery ''task.update'', EvSnooze 2000, EvLog PrismaNotFound,
        EvQuery ''task.update'', EvSnooze 2000, EvLog PrismaNotFound]" by code_simp
  from retry_loop_bounded [OF d, of w_gone w_run] d r t show ?thesis by simp
qed

subsection \<open>C3: the seed of the variable registry\<close>

text \<open>
  The loop of part_007, lines 26 to 31, assigns \<^verbatim>\<open>agent.variables[key] = element\<close>
  for every property of the input. Lemma \<open>run_handler_seed\<close> above gives the seed that
  the handler sends to the engine for an input object: under every key but one, the
  caller's value where the input has the key, and the stored default where it has not.
  The key that differs is \<^verbatim>\<open>__proto__\<close>: the assignment reaches the accessor of
  \<^verbatim>\<open>Object.prototype\<close> and defines no property, unless the stored variables hold a
  property of that name already.

  C3, at the input \<^verbatim>\<open>{"input": {"__proto__": "x", "topic": "dogs"}}\<close> for an agent
  with the stored variables \<^verbatim>\<open>{"topic": "cats", "tone": "dry"}\<close>: the loop visits both
  keys of the input, and the only request to the engine carries the variables
  \<^verbatim>\<open>{"topic": "dogs", "tone": "dry"}\<close>. The caller's value overrides the default of
  topic and the default of tone is kept, as C3 says, but the seed has no key
  \<^verbatim>\<open>__proto__\<close>, where C3 says that it maps each key of the input to the caller's value.
\<close>

theorem seed_drops_proto_key:
  "fetches (trace (snd (run_handler ''http://engine'' ''a1'' (Some run_proto) w_agent)))
     = [EvFetch ''http://engine/api/task''
          (stringify (JObj [(''id'', JStr ''a1''), (''name'', JStr ''greeter''),
                            (''variables'', JObj [(''topic'', JStr ''dogs''), (''tone'', JStr ''dry'')]),
                            (''promptChain'', JArr [])]))]
   \<and> for_in (get_prop run_proto ''input'') = [(''__proto__'', JStr ''x''), (''topic'', JStr ''dogs'')]"
  by (simp add: handler_defs json_defs w_agent_def run_proto_def fetches_simps)

subsection \<open>C4: the callback is posted when the recorded URL is truthy\<close>

text \<open>
  C4, as the claim states it, fails: the handler tests \<^verbatim>\<open>if (dbTask.callback)\<close>, and the
  empty string is a callback that is set (it is not null) and falsy. On a Task whose
  callback is the empty string the update succeeds, the handler answers 200 and nothing
  is posted.
\<close>

theorem callback_empty_url_counterexample:
  "map t_callback (tasks (w_hook (Some []) [Reply 200 ''{}''])) = [Some []]
   \<and> fst (callback_notify_handler (Some delivery1) (w_hook (Some []) [Reply 200 ''{}'']))
       = Inr (Response 200 (delivered1 (Some [])))
   \<and> trace (snd (callback_notify_handler (Some delivery1) (w_hook (Some []) [Reply 200 ''{}''])))
       = [EvQuery ''task.update'']"
  by (simp add: handler_defs json_defs delivery1_def w_hook_def delivered1_def)

text \<open>
  C4, amended. When the handler that notifies answers at all, either every attempt
  failed, the answer is the 500 and nothing was posted, or an update succeeded and the
  answer is the 200 with the full updated Task (id, agentId, logs, output, status and
  callback, the logs and output parsed). In that case exactly one POST was made, to the
  recorded URL and with that Task as its body, when the callback of the Task is neither
  null nor the empty string; and no POST was made when it is null or empty.
\<close>

theorem callback_posted_iff_truthy:
  assumes "callback_notify_handler body w = (Inr resp, w')"
  shows "(resp = unable \<and> fetches (new_events w w') = [])
       \<or> (\<exists>row lg out. resp = Response 200 (task_json row lg out)
             \<and> row \<in> set (tasks w')
             \<and> parse (t_logs row) = Some lg \<and> parse (t_output row) = Some out
             \<and> fetches (new_events w w') =
                 (case t_callback row of
                    None \<Rightarrow> []
                  | Some url \<Rightarrow>
                      if url = [] then [] else [EvFetch url (stringify (task_json row lg out))]))"
proof -
  from notify_handler_posts [OF assms] show ?thesis
  proof
    assume "resp = unable \<and> fetches (new_events w w') = []"
    then show ?thesis by simp
  next
    assume "\<exists>row lg out. resp = Response 200 (task_json row lg out)
             \<and> row \<in> set (tasks w')
             \<and> parse (t_logs row) = Some lg \<and> parse (t_output row) = Some out
             \<and> (\<exists>evs. new_events w w' = evs @ EvQuery ''task.update'' #
                    posted (t_callback row) (task_json row lg out) (fst (next_reply w))
                  \<and> fetches evs = [])"
    then obtain row lg out evs where
      r: "resp = Response 200 (task_json row lg out)" "row \<in> set (tasks w')"
         "parse (t_logs row) = Some lg" "parse (t_output row) = Some out" and
      n: "new_events w w' = evs @ EvQuery ''task.update'' #
                    posted (t_callback row) (task_json row lg out) (fst (next_reply w))" and
      e: "fetches evs = []"
      by blast
    have "fetches (new_events w w') =
        (case t_callback row of
           None \<Rightarrow> []
         | Some url \<Rightarrow> if url = [] then [] else [EvFetch url (stringify (task_json row lg out))])"
      unfolding n by (simp add: fetches_simps e fetches_posted)
    with r show ?thesis by blast
  qed
qed

theorem callback_posted_iff_truthy_witness:
  "callback_notify_handler (Some delivery1) (w_hook (Some ''http://caller/hook'') [Reply 200 ''{}''])
     = (Inr (Response 200 (delivered1 (Some ''http://caller/hook''))),
        \<lparr>agents = [],
         tasks = [\<lparr>t_id = ''t1'', t_agentId = ''a1'', t_logs = stringify (JArr [JStr ''done'']),
                   t_output = stringify (JObj [(''answer'', JNum 42)]),
                   t_status = ''complete'', t_callback = Some ''http://caller/hook''\<rparr>],
         db_faults = [], cuids = [], net = [],
         trace = [EvQuery ''task.update'',
                  EvFetch ''http://caller/hook'' (stringify (delivered1 (Some ''http://caller/hook'')))]\<rparr>)
   \<and> fetches [EvQuery ''task.update'',
                EvFetch ''http://caller/hook'' (stringify (delivered1 (Some ''http://caller/hook'')))]
       = [EvFetch ''http://caller/hook'' (stringify (delivered1 (Some ''http://caller/hook'')))]"
proof -
  have run: "callback_notify_handler (Some delivery1) (w_hook (Some ''http://caller/hook'') [Reply 200 ''{}''])
     = (Inr (Response 200 (delivered1 (Some ''http://caller/hook''))),
        \<lparr>agents = [],
         tasks = [\<lparr>t_id = ''t1'', t_agentId = ''a1'', t_logs = stringify (JArr [JStr ''done'']),
                   t_output = stringify (JObj [(''answer'', JNum 42)]),
                   t_status = ''complete'', t_callback = Some ''http://caller/hook''\<rparr>],
         db_faults = [], cuids = [], net = [],
         trace = [EvQuery ''task.update'',
                  EvFetch ''http://caller/hook'' (stringify (delivered1 (Some ''http://caller/hook'')))]\<rparr>)"
    by (simp add: handler_defs json_defs delivery1_def w_hook_def delivered1_def)
  from callback_posted_iff_truthy [OF run] run show ?thesis
    by (simp add: fetches_simps)
qed

subsection \<open>C5: a failed callback POST is logged, not retried\<close>

text \<open>
  C5, as the claim states it, fails: \<^verbatim>\<open>fireCallback\<close> makes one \<^verbatim>\<open>fetch\<close> and has
  no loop, and the retry loop of the handler ends with the attempt in which the update
  succeeded. With the first reply a transport failure and a second reply ready, the
  trace is the update, the one POST and the log of its error; the answer is 200.
\<close>

theorem callback_post_once_counterexample:
  "trace (snd (callback_notify_handler (Some delivery1) (w_hook (Some ''http://caller/hook'') [NetFail, Reply 200 ''{}''])))
     = [EvQuery ''task.update'',
        EvFetch ''http://caller/hook'' (stringify (delivered1 (Some ''http://caller/hook''))),
        EvLog FetchFailed]
   \<and> fst (callback_notify_handler (Some delivery1) (w_hook (Some ''http://caller/hook'') [NetFail, Reply 200 ''{}'']))
       = Inr (Response 200 (delivered1 (Some ''http://caller/hook'')))"
  by (simp add: handler_defs json_defs delivery1_def w_hook_def delivered1_def)

text \<open>
  C5, amended. In every run of the handler that notifies, the callback POST is made at
  most once: a failed POST is not retried. If it fails (transport failure, a status
  outside 200 to 299, or a body that does not parse), its error is logged with
  \<^verbatim>\<open>console.log\<close> right after it and the handler still answers 200. Neither the
  answer nor the stored Tasks depend on what the network replies.
\<close>

theorem callback_post_not_retried:
  assumes "callback_notify_handler body w = (Inr resp, w')"
  shows "length (fetches (new_events w w')) \<le> 1
       \<and> (\<forall>url payload error.
             fetches (new_events w w') = [EvFetch url payload]
             \<and> reply_outcome ''Failed to make callback call'' (fst (next_reply w)) = Inl error
             \<longrightarrow> (\<exists>evs. new_events w w' = evs @ [EvFetch url payload, EvLog error])
                 \<and> (\<exists>j. resp = Response 200 j))
       \<and> fst (callback_notify_handler body (w\<lparr>net := replies\<rparr>)) = Inr resp
       \<and> tasks (snd (callback_notify_handler body (w\<lparr>net := replies\<rparr>))) = tasks w'"
proof -
  have s: "sim (w\<lparr>net := replies\<rparr>) w" by (simp add: sim_def)
  from notify_handler_sim [OF s, of body] assms
  have indep: "fst (callback_notify_handler body (w\<lparr>net := replies\<rparr>)) = Inr resp"
    "tasks (snd (callback_notify_handler body (w\<lparr>net := replies\<rparr>))) = tasks w'"
    by simp_all
  from notify_handler_posts [OF assms]
  have once: "length (fetches (new_events w w')) \<le> 1"
    by (auto simp: fetches_simps fetches_posted split: option.splits)
  have logs: "(\<exists>evs. new_events w w' = evs @ [EvFetch url payload, EvLog error])
                 \<and> (\<exists>j. resp = Response 200 j)"
    if f: "fetches (new_events w w') = [EvFetch url payload]"
      and o: "reply_outcome ''Failed to make callback call'' (fst (next_reply w)) = Inl error"
    for url payload error
  proof -
    from notify_handler_posts [OF assms] f obtain row lg out evs where
      r: "resp = Response 200 (task_json row lg out)" and
      n: "new_events w w' = evs @ EvQuery ''task.update'' #
                    posted (t_callback row) (task_json row lg out) (fst (next_reply w))" and
      e: "fetches evs = []"
      by auto
    from f have "fetches (posted (t_callback row) (task_json row lg out) (fst (next_reply w)))
        = [EvFetch url payload]"
      unfolding n by (simp add: fetches_simps e)
    then obtain u where u: "t_callback row = Some u" "u \<noteq> []" "u = url"
      "payload = stringify (task_json row lg out)"
      by (auto simp: fetches_posted split: option.splits if_splits)
    then have "posted (t_callback row) (task_json row lg out) (fst (next_reply w))
        = [EvFetch url payload, EvLog error]"
      using o by (simp add: posted_def logged_def)
    with n have "new_events w w' = (evs @ [EvQuery ''task.update'']) @ [EvFetch url payload, EvLog error]"
      by simp
    with r show ?thesis by blast
  qed
  from once logs indep show ?thesis by blast
qed

theorem callback_post_not_retried_witness:
  "fst (callback_notify_handler (Some delivery1) (w_hook (Some ''http://caller/hook'') [NetFail]))
     = Inr (Response 200 (delivered1 (Some ''http://caller/hook'')))
   \<and> length (fetches (new_events (w_hook (Some ''http://caller/hook'') [NetFail])
        (snd (callback_notify_handler (Some delivery1) (w_hook (Some ''http://caller/hook'') [NetFail]))))) \<le> 1
   \<and> fst (callback_notify_handler (Some delivery1)
          (w_hook (Some ''http://caller/hook'') [NetFail]\<lparr>net := [Reply 200 ''{}'']\<rparr>))
       = Inr (Response 200 (delivered1 (Some ''http://caller/hook'')))"
proof -
  let ?w = "w_hook (Some ''http://caller/hook'') [NetFail]"
  have r: "fst (callback_notify_handler (Some delivery1) ?w)
     = Inr (Response 200 (delivered1 (Some ''http://caller/hook'')))"
    by (simp add: handler_defs json_defs delivery1_def w_hook_def delivered1_def)
  then have run: "callback_notify_handler (Some delivery1) ?w
     = (Inr (Response 200 (delivered1 (Some ''http://caller/hook''))),
        snd (callback_notify_handler (Some delivery1) ?w))"
    by (simp add: prod_eq_iff)
  from callback_post_not_retried [OF run, of "[Reply 200 ''{}'']"] r show ?thesis by simp
qed

subsection \<open>C6: a delivery that fails leaves the stored Task as it was\<close>




subsection \<open>C7: a stored status is one of the three names of the enum\<close>

text \<open>
  C7. If every Task of the table has one of the statuses running, complete and error,
  then so has every Task of the table after any request to the update handler, to the
  handler that notifies, or to the workflow-run handler, whatever the request carries and
  whatever the database and the engine do; the read handler changes nothing. The handlers
  pass the status of the request or of the engine on as it came: it is the column type
  \<^verbatim>\<open>Status\<close> that refuses every other value, and the refused write leaves the table
  as it was.
\<close>

theorem status_always_in_enum:
  assumes "status_ok (tasks w)"
  shows "status_ok (tasks (snd (callback_update_handler body w)))
       \<and> status_ok (tasks (snd (callback_notify_handler body w)))
       \<and> status_ok (tasks (snd (run_handler E aid body w)))
       \<and> tasks (snd (task_get_handler tid w)) = tasks w"
proof -
  have u: "status_ok (tasks (snd (callback_update_handler body w)))"
  proof (cases "destructure body")
    case None
    with assms show ?thesis by (simp add: handler_via_loop)
  next
    case (Some b)
    show ?thesis
      unfolding handler_via_loop(1) [OF Some]
      by (rule retry_loop_invariant [where P = status_ok])
         (simp_all add: assms update_attempt_tasks update_keeps_status)
  qed
  have n: "status_ok (tasks (snd (callback_notify_handler body w)))"
  proof (cases "destructure body")
    case None
    with assms show ?thesis by (simp add: handler_via_loop)
  next
    case (Some b)
    show ?thesis
      unfolding handler_via_loop(2) [OF Some]
      by (rule retry_loop_invariant [where P = status_ok])
         (simp_all add: assms notify_attempt_tasks update_keeps_status)
  qed
  from u n run_handler_keeps_status [OF assms] task_get_tasks show ?thesis by blast
qed

theorem status_always_in_enum_witness:
  "status_ok (tasks w_run)
   \<and> status_ok (tasks (snd (callback_notify_handler (Some delivery_bogus) w_run)))
   \<and> map t_status (tasks (snd (callback_notify_handler (Some delivery_bogus) w_run))) = [''running'']
   \<and> fst (callback_notify_handler (Some delivery_bogus) w_run) = Inr unable
   \<and> map t_status (tasks (snd (callback_notify_handler (Some delivery1) w_run))) = [''complete'']"
proof -
  have s: "status_ok (tasks w_run)" by (simp add: status_ok_def w_run_def Status_def)
  have a: "map t_status (tasks (snd (callback_notify_handler (Some delivery_bogus) w_run))) = [''running'']"
    by (simp add: handler_defs json_defs delivery_bogus_def w_run_def)
  have b: "fst (callback_notify_handler (Some delivery_bogus) w_run) = Inr unable"
    by (simp add: handler_defs json_defs delivery_bogus_def w_run_def)
  have c: "map t_status (tasks (snd (callback_notify_handler (Some delivery1) w_run))) = [''complete'']"
    by (simp add: handler_defs json_defs delivery1_def w_run_def)
  from status_always_in_enum [OF s, of "Some delivery_bogus"] s a b c show ?thesis by simp
qed

subsection \<open>C8: what the run handler stores is what the read handler returns\<close>

text \<open>
  C8. When the run handler answers with the 201, it has stored one new Task, and the
  engine's answer has logs and output, stored as their \<^verbatim>\<open>JSON.stringify\<close> texts.
  \<^verbatim>\<open>JSON.parse\<close> of each text gives the engine's value back, so a GET of that Task, when
  its query reaches the database, answers with the 200 and with the Task whose logs and
  output are the values of the engine's answer. (JSON numbers are integers here and
  strings are sequences of 8-bit characters; an object lists its properties in the order
  of the text.)
\<close>

theorem stored_task_reads_back:
  assumes run: "run_handler E aid body w = (Inr (Response 201 response), w1)"
      and up: "fst (db_fault w1) = False"
  shows "\<exists>row lg out. tasks w1 = tasks w @ [row]
      \<and> get_prop response ''logs'' = Some lg \<and> get_prop response ''output'' = Some out
      \<and> t_logs row = stringify lg \<and> t_output row = stringify out
      \<and> parse (stringify lg) = Some lg \<and> parse (stringify out) = Some out
      \<and> fst (task_get_handler (t_id row) w1) = Response 200 (task_json row lg out)"
proof -
  from run_handler_201 [OF run] obtain row where
    r: "tasks w1 = tasks w @ [row]" "find (\<lambda>r. t_id r = t_id row) (tasks w) = None"
       "wf_json response"
       "js_stringify (get_prop response ''logs'') = Some (JStr (t_logs row))"
       "js_stringify (get_prop response ''output'') = Some (JStr (t_output row))"
    by blast
  from js_stringify_D [OF r(4)] obtain lg where
    lg: "get_prop response ''logs'' = Some lg" "t_logs row = stringify lg" by blast
  from js_stringify_D [OF r(5)] obtain out where
    out: "get_prop response ''output'' = Some out" "t_output row = stringify out" by blast
  from r(3) lg(1) have "wf_json lg" by (rule get_prop_wf)
  then have pl: "parse (stringify lg) = Some lg" by (rule parse_stringify)
  from r(3) out(1) have "wf_json out" by (rule get_prop_wf)
  then have po: "parse (stringify out) = Some out" by (rule parse_stringify)
  obtain res w2 where f: "prisma_task_findUnique (t_id row) w1 = (res, w2)"
    by (cases "prisma_task_findUnique (t_id row) w1")
  from task_findUnique_D [OF f] up r(1)
  have "res = Inr (find (\<lambda>r. t_id r = t_id row) (tasks w @ [row]))" by simp
  with find_append_new [of "\<lambda>r. t_id r = t_id row" "tasks w" row] r(2)
  have "res = Inr (Some row)" by simp
  with f lg(2) out(2) pl po
  have "fst (task_get_handler (t_id row) w1) = Response 200 (task_json row lg out)"
    by (simp add: task_get_handler_def)
  with r(1) lg out pl po show ?thesis by blast
qed

theorem stored_task_reads_back_witness:
  "fst (run_handler ''http://engine'' ''a1'' (Some run_body) w_agent) = Inr (Response 201 engine_task)
   \<and> fst (db_fault (snd (run_handler ''http://engine'' ''a1'' (Some run_body) w_agent))) = False
   \<and> map t_id (tasks (snd (run_handler ''http://engine'' ''a1'' (Some run_body) w_agent))) = [''t9'']
   \<and> fst (task_get_handler ''t9'' (snd (run_handler ''http://engine'' ''a1'' (Some run_body) w_agent)))
       = Response 200
           (JObj [(''id'', JStr ''t9''), (''agentId'', JStr ''a1''), (''logs'', JArr [JStr ''started'']),
                  (''output'', JObj [(''answer'', JNum (- 42))]), (''status'', JStr ''running''),
                  (''callback'', JNull)])"
proof -
  let ?r = "run_handler ''http://engine'' ''a1'' (Some run_body) w_agent"
  have a: "fst ?r = Inr (Response 201 engine_task)"
    by (simp add: handler_defs json_defs w_agent_def run_body_def engine_task_def)
  have t: "tasks (snd ?r) = [\<lparr>t_id = ''t9'', t_agentId = ''a1'', t_logs = stringify (JArr [JStr ''started'']),
          t_output = stringify (JObj [(''answer'', JNum (- 42))]), t_status = ''running'',
          t_callback = None\<rparr>]"
    by (simp add: handler_defs json_defs w_agent_def run_body_def engine_task_def)
  have u: "fst (db_fault (snd ?r)) = False"
    by (simp add: handler_defs json_defs w_agent_def run_body_def engine_task_def)
  from a have run: "?r = (Inr (Response 201 engine_task), snd ?r)" by (simp add: prod_eq_iff)
  from stored_task_reads_back [OF run u] t obtain row lg out where
    s: "[\<lparr>t_id = ''t9'', t_agentId = ''a1'', t_logs = stringify (JArr [JStr ''started'']),
          t_output = stringify (JObj [(''answer'', JNum (- 42))]), t_status = ''running'',
          t_callback = None\<rparr>] = tasks w_agent @ [row]"
      "get_prop engine_task ''logs'' = Some lg" "get_prop engine_task ''output'' = Some out"
      "fst (task_get_handler (t_id row) (snd ?r)) = Response 200 (task_json row lg out)"
    by auto
  from s(1) have row: "row = \<lparr>t_id = ''t9'', t_agentId = ''a1'', t_logs = stringify (JArr [JStr ''started'']),
          t_output = stringify (JObj [(''answer'', JNum (- 42))]), t_status = ''running'',
          t_callback = None\<rparr>"
    by (simp add: w_agent_def)
  from s(2,3) have "lg = JArr [JStr ''started'']" "out = JObj [(''answer'', JNum (- 42))]"
    by (simp_all add: engine_task_def)
  with s(4) row a u t show ?thesis by (simp add: task_json_def)
qed

subsection \<open>C9: \<^verbatim>\<open>runAgent\<close> returns, unless \<^verbatim>\<open>onError\<close> throws\<close>

text \<open>
  C9, as the claim states it, fails: \<^verbatim>\<open>onError?.(error)\<close> is called inside the
  \<^verbatim>\<open>catch\<close> (\<^verbatim>\<open>run-workflow.js\<close>, line 28), so what it throws leaves
  \<^verbatim>\<open>runAgent\<close>. With a transport failure and an \<^verbatim>\<open>onError\<close> that throws what
  it is given, \<^verbatim>\<open>runAgent\<close> throws.
\<close>

theorem runAgent_onError_throws_counterexample:
  "fst (runAgent ''http://engine'' (JObj []) None (Some rethrow) (w_engine [NetFail]))
     = Inl FetchFailed"
  by (simp add: handler_defs rethrow_def w_engine_def)

text \<open>
  C9, amended. Provided \<^verbatim>\<open>onError\<close> is absent or does not throw (the handlers pass
  no callback at all), \<^verbatim>\<open>runAgent\<close> never throws: for every reply of the engine it
  returns a value. The value is the parsed body when the engine answered with a status
  from 200 to 299 and a body that parses (and \<^verbatim>\<open>onSuccess\<close>, if there is one, did not
  throw); in every other case (transport failure, another status, a body that does not
  parse, a throwing \<^verbatim>\<open>onSuccess\<close>) it is the Error object. So the test
  \<^verbatim>\<open>response instanceof Error\<close> of the caller tells success from failure.
\<close>

theorem runAgent_never_throws:
  assumes "\<forall>error. call_back onError error = None"
  shows "\<exists>ret. fst (runAgent E agent onSuccess onError w) = Inr ret
      \<and> ret = (case reply_outcome ''Failed to start agent task'' (fst (next_reply w)) of
                 Inl error \<Rightarrow> RetError error
               | Inr data \<Rightarrow> (case call_back onSuccess data of
                                 None \<Rightarrow> RetData data
                               | Some thrown \<Rightarrow> RetError thrown))"
proof -
  let ?w = "emit (EvFetch (E @ ''/api/task'') (stringify agent)) w"
  obtain res w1 where n: "next_reply ?w = (res, w1)" by (cases "next_reply ?w")
  then have r: "fst (next_reply w) = res" using next_reply_emit [of _ w] by (metis fst_conv)
  show ?thesis
    using assms n unfolding r
    by (cases res)
       (auto simp: runAgent_def post_json_def Let_def split: option.splits)
qed

theorem runAgent_never_throws_witness:
  "(\<forall>error. call_back None error = None)
   \<and> fst (runAgent ''http://engine'' (JObj []) None None (w_engine [NetFail])) = Inr (RetError FetchFailed)
   \<and> fst (runAgent ''http://engine'' (JObj []) None None (w_engine [Reply 500 ''{}'']))
        = Inr (RetError (HttpError ''Failed to start agent task'' (JObj []) 500))
   \<and> fst (runAgent ''http://engine'' (JObj []) None None (w_engine [Reply 200 ''oops''])) = Inr (RetError SyntaxError)
   \<and> fst (runAgent ''http://engine'' (JObj []) None None (w_engine [Reply 201 ''[true]'']))
        = Inr (RetData (JArr [JBool True]))"
proof -
  have c: "\<forall>error. call_back None error = None" by (simp add: call_back_def)
  have p: "parse ''{}'' = Some (JObj [])" "parse ''oops'' = None" "parse ''[true]'' = Some (JArr [JBool True])"
    by (simp_all add: json_defs)
  have n: "fst (next_reply (w_engine rs)) = (case rs of [] \<Rightarrow> NetFail | r # _ \<Rightarrow> r)" for rs
    by (simp add: next_reply_def w_engine_def split: list.splits)
  from runAgent_never_throws [OF c, of "''http://engine''" "JObj []" None "w_engine [NetFail]"]
    runAgent_never_throws [OF c, of "''http://engine''" "JObj []" None "w_engine [Reply 500 ''{}'']"]
    runAgent_never_throws [OF c, of "''http://engine''" "JObj []" None "w_engine [Reply 200 ''oops'']"]
    runAgent_never_throws [OF c, of "''http://engine''" "JObj []" None "w_engine [Reply 201 ''[true]'']"]
  show ?thesis by (simp add: c p n ok_def call_back_def)
qed

subsection \<open>C10: the guard of the upsert handler never fires\<close>




end
